theory Spec2Isabelle
  imports Complex_Main "HOL-Library.Word"
begin

unbundle bit_operations_syntax

section \<open>Values, errors and the palettes\<close>

text \<open>
  Exceptions that end a run of \<^verbatim>\<open>png_to_mc_pixelart.py\<close>. \<open>SystemExit\<close> carries the
  message of the command-limit abort. \<^verbatim>\<open>ValueError\<close> is raised in three places, told
  apart by what they report: by \<^verbatim>\<open>np.argmin\<close> on an empty sequence, by \<^verbatim>\<open>resize\<close> on a
  size below 1, and by \<^verbatim>\<open>save\<close> on a path whose extension names no image format.
\<close>

datatype value_error = EmptySequence | BadSize | UnknownExtension

datatype error =
    ValueError value_error
  | ZeroDivisionError
  | OverflowError
  | IndexError
  | SystemExit string

type_synonym uint8 = "8 word"
type_synonym int16 = "16 word"
type_synonym int32 = "32 word"
type_synonym int64 = "64 word"

text \<open>An RGB pixel of an image (\<^verbatim>\<open>uint8\<close>), and a row of the \<^verbatim>\<open>int16\<close> palette array.\<close>

type_synonym rgb8 = "uint8 \<times> uint8 \<times> uint8"
type_synonym rgb16 = "int16 \<times> int16 \<times> int16"

text \<open>
  The palettes are Python dictionaries from colour name to a triple of integers; iteration
  order is insertion order, so they are association lists.
\<close>

type_synonym palette = "(string \<times> (int \<times> int \<times> int)) list"

definition CONCRETE_PALETTE :: palette where
  "CONCRETE_PALETTE =
    [(''white'', (209, 213, 214)),
     (''orange'', (240, 118, 19)),
     (''magenta'', (189, 68, 179)),
     (''light_blue'', (58, 175, 217)),
     (''yellow'', (249, 198, 39)),
     (''lime'', (112, 185, 25)),
     (''pink'', (237, 141, 172)),
     (''gray'', (62, 68, 71)),
     (''light_gray'', (142, 142, 134)),
     (''cyan'', (21, 137, 142)),
     (''purple'', (121, 42, 172)),
     (''blue'', (53, 57, 157)),
     (''brown'', (100, 58, 36)),
     (''green'', (73, 91, 36)),
     (''red'', (161, 39, 34)),
     (''black'', (20, 21, 25))]"

definition WOOL_PALETTE :: palette where
  "WOOL_PALETTE =
    [(''white'', (234, 236, 237)), (''orange'', (241, 118, 20)),
     (''magenta'', (238, 77, 201)), (''light_blue'', (128, 199, 248)),
     (''yellow'', (250, 198, 39)), (''lime'', (112, 185, 25)),
     (''pink'', (242, 141, 170)), (''gray'', (57, 57, 57)),
     (''light_gray'', (151, 151, 151)), (''cyan'', (20, 137, 140)),
     (''purple'', (107, 50, 168)), (''blue'', (44, 46, 143)),
     (''brown'', (96, 59, 31)), (''green'', (73, 91, 36)),
     (''red'', (176, 46, 38)), (''black'', (12, 12, 12))]"

text \<open>\<^verbatim>\<open>--blocktype\<close> has exactly the keys of \<^verbatim>\<open>PALETTES\<close> as its choices.\<close>

datatype blocktype = Concrete | Wool

fun blocktype_name :: "blocktype \<Rightarrow> string" where
  "blocktype_name Concrete = ''concrete''"
| "blocktype_name Wool = ''wool''"

fun PALETTES :: "blocktype \<Rightarrow> palette" where
  "PALETTES Concrete = CONCRETE_PALETTE"
| "PALETTES Wool = WOOL_PALETTE"

section \<open>The quantizer: \<^verbatim>\<open>nearest_color\<close>\<close>

text \<open>\<^verbatim>\<open>np.array(rgb, dtype=np.int16)\<close> on a \<^verbatim>\<open>uint8\<close> pixel: zero extension.\<close>

definition np_int16 :: "rgb8 \<Rightarrow> rgb16" where
  "np_int16 rgb = (case rgb of (r, g, b) \<Rightarrow> (ucast r, ucast g, ucast b))"

text \<open>
  \<^verbatim>\<open>np.array([...], dtype=np.int16)\<close> on the integer triples of a palette: each integer
  is stored in 16 bits.
\<close>

definition np_array_int16 :: "(int \<times> int \<times> int) list \<Rightarrow> rgb16 list" where
  "np_array_int16 cs = map (\<lambda>(r, g, b). (word_of_int r, word_of_int g, word_of_int b)) cs"

text \<open>\<^verbatim>\<open>palette_arr - rgb\<close>: row-wise subtraction in \<^verbatim>\<open>int16\<close>, which wraps.\<close>

definition diff16 :: "rgb16 \<Rightarrow> rgb16 \<Rightarrow> rgb16" where
  "diff16 p q = (case p of (pr, pg, pb) \<Rightarrow> case q of (qr, qg, qb) \<Rightarrow> (pr - qr, pg - qg, pb - qb))"

text \<open>
  \<^verbatim>\<open>np.sum(diffs.astype(np.int32) ** 2, axis=1)\<close> for one row: each difference is sign
  extended to 32 bits and squared there; the sum of a signed array narrower than the
  platform integer is accumulated in the platform integer, 64 bits.
\<close>

definition sq32 :: "int16 \<Rightarrow> int32" where
  "sq32 d = scast d * scast d"

definition row_dist :: "rgb16 \<Rightarrow> int64" where
  "row_dist d = (case d of (dr, dg, db) \<Rightarrow> scast (sq32 dr) + scast (sq32 dg) + scast (sq32 db))"

text \<open>
  \<^verbatim>\<open>np.argmin\<close>: the index of the minimum of a signed array, the first occurrence when
  the minimum occurs several times; an empty array raises \<^verbatim>\<open>ValueError\<close>.
\<close>

definition smin :: "int64 \<Rightarrow> int64 \<Rightarrow> int64" where
  "smin a b = (if sint a \<le> sint b then a else b)"

fun first_index :: "'a \<Rightarrow> 'a list \<Rightarrow> nat" where
  "first_index v [] = 0"
| "first_index v (x # xs) = (if x = v then 0 else Suc (first_index v xs))"

definition np_argmin :: "int64 list \<Rightarrow> error + nat" where
  "np_argmin a = (case a of [] \<Rightarrow> Inl (ValueError EmptySequence) | x # xs \<Rightarrow> Inr (first_index (fold smin xs x) a))"

definition nearest_color :: "rgb8 \<Rightarrow> rgb16 list \<Rightarrow> error + nat" where
  "nearest_color rgb palette_arr =
     (let diffs = map (\<lambda>p. diff16 p (np_int16 rgb)) palette_arr;
          dists = map row_dist diffs
      in np_argmin dists)"

text \<open>The squared Euclidean distance of two RGB triples, over the integers.\<close>

definition rgb_ints :: "rgb8 \<Rightarrow> int \<times> int \<times> int" where
  "rgb_ints c = (case c of (r, g, b) \<Rightarrow> (uint r, uint g, uint b))"

definition sqdist :: "rgb8 \<Rightarrow> rgb8 \<Rightarrow> int" where
  "sqdist p q = (case p of (pr, pg, pb) \<Rightarrow> case q of (qr, qg, qb) \<Rightarrow>
     (uint pr - uint qr)\<^sup>2 + (uint pg - uint qg)\<^sup>2 + (uint pb - uint qb)\<^sup>2)"

section \<open>Formatting: \<^verbatim>\<open>str\<close>, \<^verbatim>\<open>offset_token\<close>, \<^verbatim>\<open>build_setblock_cmd\<close>\<close>

text \<open>Python's \<^verbatim>\<open>str\<close> on an integer: decimal digits, a leading minus sign when negative.\<close>

definition digit_char :: "nat \<Rightarrow> char" where
  "digit_char d = ''0123456789'' ! d"

fun str_nat :: "nat \<Rightarrow> string" where
  "str_nat n = (if n < 10 then [digit_char n] else str_nat (n div 10) @ [digit_char (n mod 10)])"

declare str_nat.simps [simp del]

definition str_int :: "int \<Rightarrow> string" where
  "str_int i = (if i < 0 then CHR ''-'' # str_nat (nat (- i)) else str_nat (nat i))"

definition offset_token :: "int \<Rightarrow> string" where
  "offset_token offset = (if offset = 0 then ''~'' else ''~'' @ str_int offset)"

definition build_setblock_cmd :: "int \<Rightarrow> int \<Rightarrow> int \<Rightarrow> string \<Rightarrow> string" where
  "build_setblock_cmd xoff y zoff block_fullname =
     ''setblock '' @ offset_token xoff @ '' '' @ str_int y @ '' '' @ offset_token zoff
       @ '' '' @ block_fullname @ '' replace''"

section \<open>Images, files and the command line\<close>

text \<open>
  An image of the imaging library: its size and the pixel at each \<open>(x, y)\<close>. A run
  changes the files it writes and the lines it prints.
\<close>

record image =
  size_w :: nat
  size_h :: nat
  px :: "nat \<times> nat \<Rightarrow> rgb8"

datatype file_content = Text string | Bitmap image

record world =
  files :: "string \<rightharpoonup> file_content"
  stdout :: "string list"

record args =
  infile :: string
  width :: int
  out :: string
  startx :: int
  starty :: int
  startz :: int
  blocktype :: blocktype
  flipy :: bool
  preview :: "string option"
  max_commands :: int

text \<open>A \<^verbatim>\<open>for\<close> loop over a list whose body may raise: the first error ends the loop.\<close>

fun for_loop :: "'a list \<Rightarrow> ('a \<Rightarrow> 's \<Rightarrow> error + 's) \<Rightarrow> 's \<Rightarrow> error + 's" where
  "for_loop [] body s = Inr s"
| "for_loop (x # xs) body s =
     (case body x s of Inl e \<Rightarrow> Inl e | Inr s' \<Rightarrow> for_loop xs body s')"

text \<open>Indexing a Python list or an array axis by an integer: negative indices count from the end.\<close>

definition py_index :: "'a list \<Rightarrow> int \<Rightarrow> error + 'a" where
  "py_index xs i =
     (if 0 \<le> i \<and> i < int (length xs) then Inr (xs ! nat i)
      else if i < 0 \<and> - int (length xs) \<le> i then Inr (xs ! nat (int (length xs) + i))
      else Inl IndexError)"

section \<open>The normalizer: lines 97 to 109 of \<^verbatim>\<open>main\<close>\<close>

text \<open>
  Python's \<^verbatim>\<open>round\<close> on one argument returns the nearest integer, the even one when
  two are equally near.
\<close>

definition py_round :: "rat \<Rightarrow> int" where
  "py_round x =
     (let f = \<lfloor>x\<rfloor>; d = x - of_int f
      in if d < 1 / 2 then f else if 1 / 2 < d then f + 1 else if even f then f else f + 1)"

text \<open>
  \<^verbatim>\<open>(target_w * h0) / w0\<close> is true division of two integers: it raises
  \<^verbatim>\<open>ZeroDivisionError\<close> on a zero divisor and otherwise gives the double nearest to the
  exact quotient, the one with the even significand when two are equally near, or raises
  \<^verbatim>\<open>OverflowError\<close> when that is beyond the range of a double. A double in the binade
  \<open>e\<close> (from \<open>2 powi e\<close> up to \<open>2 powi (e + 1)\<close>) is a multiple of \<open>2 powi (e - 52)\<close>;
  below \<open>2 powi (- 1022)\<close> the spacing stays that of the binade \<open>- 1022\<close>.
  \<open>binade n d\<close> is the binade of the quotient of two positive integers, found from
  their bit lengths.
\<close>

function bit_length :: "int \<Rightarrow> nat" where
  "bit_length n = (if n \<le> 0 then 0 else Suc (bit_length (n div 2)))"
  by pat_completeness auto
termination
  by (relation "measure nat") auto

declare bit_length.simps [simp del]

definition binade :: "int \<Rightarrow> int \<Rightarrow> int" where
  "binade n d =
     (let s = int (bit_length n) - int (bit_length d)
      in if of_int d * 2 powi s \<le> (of_int n :: rat) then s else s - 1)"

definition double_of :: "int \<Rightarrow> rat \<Rightarrow> rat" where
  "double_of e x = of_int (py_round (x / 2 powi (e - 52))) * 2 powi (e - 52)"

definition true_divide :: "int \<Rightarrow> int \<Rightarrow> error + rat" where
  "true_divide n d =
     (if d = 0 then Inl ZeroDivisionError
      else if n = 0 then Inr 0
      else let e = max (binade \<bar>n\<bar> \<bar>d\<bar>) (- 1022);
               y = double_of e \<bar>of_int n / of_int d\<bar>
           in if 2 powi 1024 \<le> y then Inl OverflowError
              else Inr (if (n < 0) = (d < 0) then y else - y))"

text \<open>
  The height asked of \<^verbatim>\<open>resize\<close>, line 100. The quotient is taken exactly here:
  \<open>true_divide\<close> above is what the division computes, and for a product
  \<open>target_w * h0\<close> from 0 up to \<open>2 ^ 52\<close> rounding it gives the same integer as rounding
  the exact quotient (lemma \<open>true_divide_round\<close> below). Beyond that bound the two may
  differ, and a quotient outside the range of a double raises \<^verbatim>\<open>OverflowError\<close>, so the
  theorem on the height of the grid carries that bound.
\<close>

definition target_height :: "int \<Rightarrow> nat \<Rightarrow> nat \<Rightarrow> error + int" where
  "target_height target_w h0 w0 =
     (if w0 = 0 then Inl ZeroDivisionError
      else Inr (py_round (of_int (target_w * int h0) / of_int (int w0))))"

text \<open>
  Modelled from the spec: the size check of the imaging library's \<^verbatim>\<open>resize\<close>, which
  is not part of the source file. The spec (4.1) says the normalizer fails with
  InvalidDimension if the target width is at most 0 or the resulting height rounds to 0;
  the library refuses a requested size with a component below 1 and otherwise returns an
  image of exactly the requested size. The resampling filter is a parameter: it gives
  the pixel at each position of the result.
\<close>

type_synonym resample = "image \<Rightarrow> nat \<times> nat \<Rightarrow> nat \<times> nat \<Rightarrow> rgb8"

definition pil_resize :: "resample \<Rightarrow> image \<Rightarrow> int \<times> int \<Rightarrow> error + image" where
  "pil_resize resample im sz =
     (case sz of (w, h) \<Rightarrow>
        if w < 1 \<or> h < 1 then Inl (ValueError BadSize)
        else Inr \<lparr>size_w = nat w, size_h = nat h, px = resample im (nat w, nat h)\<rparr>)"

text \<open>\<^verbatim>\<open>np.array(im)\<close>: an array of shape (height, width, 3), one row per image row.\<close>

definition np_array :: "image \<Rightarrow> rgb8 list list" where
  "np_array im = map (\<lambda>y. map (\<lambda>x. px im (x, y)) [0..<size_w im]) [0..<size_h im]"

definition normalize :: "resample \<Rightarrow> args \<Rightarrow> image \<Rightarrow> error + image" where
  "normalize lanczos a im =
     (let w0 = size_w im; h0 = size_h im; target_w = width a
      in case target_height target_w h0 w0 of
           Inl e \<Rightarrow> Inl e
         | Inr target_h \<Rightarrow> pil_resize lanczos im (target_w, target_h))"

section \<open>The quantizer loop: lines 112 to 121 of \<^verbatim>\<open>main\<close>\<close>

text \<open>
  \<^verbatim>\<open>mapped_idxs\<close> starts as \<^verbatim>\<open>np.zeros((H, W), dtype=np.int32)\<close>; the two nested loops
  store the index of the nearest colour of each pixel at its place.
\<close>

definition quantize :: "rgb8 list list \<Rightarrow> nat \<Rightarrow> nat \<Rightarrow> rgb16 list \<Rightarrow> error + int32 list list" where
  "quantize pixels H W palette_colors =
     for_loop [0..<H]
       (\<lambda>y mapped_idxs.
          let row = pixels ! y
          in for_loop [0..<W]
               (\<lambda>x mapped_idxs.
                  let rgb = row ! x
                  in case nearest_color rgb palette_colors of
                       Inl e \<Rightarrow> Inl e
                     | Inr idx \<Rightarrow> Inr (mapped_idxs[y := (mapped_idxs ! y)[x := word_of_nat idx]]))
               mapped_idxs)
       (replicate H (replicate W 0))"

section \<open>The command emitter: lines 124 to 145 of \<^verbatim>\<open>main\<close>\<close>

definition limit_message :: "int \<Rightarrow> string" where
  "limit_message m = ''Aborting: command count exceeded max-commands ('' @ str_int m @ '').''"

text \<open>
  The body of the inner loop: one command is appended for the cell, then the length of
  the list is compared with \<^verbatim>\<open>--max-commands\<close>.
\<close>

definition emit_cell :: "args \<Rightarrow> int32 list list \<Rightarrow> string list \<Rightarrow> int \<Rightarrow> int \<Rightarrow> nat \<Rightarrow> nat
    \<Rightarrow> string list \<Rightarrow> error + string list" where
  "emit_cell a mapped_idxs palette_names y z_offset_row row_idx col_idx commands =
     (let palette_idx = sint (mapped_idxs ! row_idx ! col_idx)
      in case py_index palette_names palette_idx of
           Inl e \<Rightarrow> Inl e
         | Inr block_color_name \<Rightarrow>
             let block_fullname = ''minecraft:'' @ block_color_name @ ''_'' @ blocktype_name (blocktype a);
                 xoff = startx a + int col_idx;
                 zoff = startz a + z_offset_row;
                 cmd = build_setblock_cmd xoff y zoff block_fullname;
                 commands = commands @ [cmd]
             in if int (length commands) > max_commands a
                then Inl (SystemExit (limit_message (max_commands a)))
                else Inr commands)"

definition build_commands :: "args \<Rightarrow> nat \<Rightarrow> nat \<Rightarrow> int32 list list \<Rightarrow> string list \<Rightarrow> error + string list" where
  "build_commands a H W mapped_idxs palette_names =
     for_loop [0..<H]
       (\<lambda>row_idx commands.
          let y = starty a;
              z_offset_row = (if flipy a then int row_idx else int H - 1 - int row_idx)
          in for_loop [0..<W]
               (emit_cell a mapped_idxs palette_names y z_offset_row row_idx) commands)
       []"

text \<open>
  \<^verbatim>\<open>make_mcfunction\<close>: opening the file for writing replaces whatever it held; each
  command is written followed by a newline, then the count is printed. Opening and
  writing are taken to succeed.
\<close>

definition make_mcfunction :: "string list \<Rightarrow> string \<Rightarrow> world \<Rightarrow> world" where
  "make_mcfunction commands out_path wd =
     wd\<lparr>files := (files wd)(out_path \<mapsto> Text (concat (map (\<lambda>cmd. cmd @ [CHR 0x0A]) commands))),
        stdout := stdout wd @ [''Saved '' @ str_nat (length commands) @ '' commands to '' @ out_path]\<rparr>"

section \<open>The preview renderer: lines 147 to 156 of \<^verbatim>\<open>main\<close>\<close>

text \<open>\<^verbatim>\<open>Image.new("RGB", (W, H))\<close> is black; \<^verbatim>\<open>putpixel\<close> stores each channel clipped to a byte.\<close>

definition image_new :: "nat \<times> nat \<Rightarrow> image" where
  "image_new sz = (case sz of (w, h) \<Rightarrow> \<lparr>size_w = w, size_h = h, px = (\<lambda>_. (0, 0, 0))\<rparr>)"

definition clip8 :: "int \<Rightarrow> uint8" where
  "clip8 v = word_of_int (max 0 (min 255 v))"

definition putpixel :: "image \<Rightarrow> nat \<times> nat \<Rightarrow> int \<times> int \<times> int \<Rightarrow> image" where
  "putpixel im xy color =
     (case color of (r, g, b) \<Rightarrow> im\<lparr>px := (px im)(xy := (clip8 r, clip8 g, clip8 b))\<rparr>)"

text \<open>\<^verbatim>\<open>tuple(palette_colors[i].tolist())\<close>: one row of the palette array as Python integers.\<close>

definition tolist :: "rgb16 \<Rightarrow> int \<times> int \<times> int" where
  "tolist c = (case c of (r, g, b) \<Rightarrow> (sint r, sint g, sint b))"

text \<open>
  The nearest-neighbour filter of \<^verbatim>\<open>resize\<close>: the pixel at \<open>(X, Y)\<close> of the result is
  the source pixel under the centre of that pixel, at \<open>\<lfloor>(X + 1/2) \<sdot> w0 / w\<rfloor>\<close> and likewise
  for \<open>Y\<close>.
\<close>

definition NEAREST :: resample where
  "NEAREST im sz XY =
     (case sz of (w, h) \<Rightarrow> case XY of (X, Y) \<Rightarrow>
        px im (((2 * X + 1) * size_w im) div (2 * w), ((2 * Y + 1) * size_h im) div (2 * h)))"

definition paint_preview :: "nat \<Rightarrow> nat \<Rightarrow> int32 list list \<Rightarrow> rgb16 list \<Rightarrow> error + image" where
  "paint_preview H W mapped_idxs palette_colors =
     for_loop [0..<H]
       (\<lambda>y im. for_loop [0..<W]
          (\<lambda>x im. case py_index palette_colors (sint (mapped_idxs ! y ! x)) of
                     Inl e \<Rightarrow> Inl e
                   | Inr c \<Rightarrow> Inr (putpixel im (x, y) (tolist c)))
          im)
       (image_new (W, H))"

definition render_preview :: "nat \<Rightarrow> nat \<Rightarrow> int32 list list \<Rightarrow> rgb16 list \<Rightarrow> error + image" where
  "render_preview H W mapped_idxs palette_colors =
     (case paint_preview H W mapped_idxs palette_colors of
        Inl e \<Rightarrow> Inl e
      | Inr im \<Rightarrow> pil_resize NEAREST im (int (W * 8), int (H * 8)))"

text \<open>
  \<^verbatim>\<open>preview.save(path)\<close> chooses the encoder by the extension of the path and raises
  \<^verbatim>\<open>ValueError\<close>, before any file is opened, when the extension names no format. Which
  encoder a path gets is a parameter: for a path it gives what re-reading the written
  file yields (the image itself for a lossless format such as PNG, another image of the
  same size for a lossy one), or nothing for an unknown extension.
\<close>

type_synonym codec = "string \<Rightarrow> (image \<Rightarrow> image) option"

definition save_preview :: "codec \<Rightarrow> image \<Rightarrow> string \<Rightarrow> world \<Rightarrow> error + world" where
  "save_preview codec im path wd =
     (case codec path of
        None \<Rightarrow> Inl (ValueError UnknownExtension)
      | Some enc \<Rightarrow> Inr (wd\<lparr>files := (files wd)(path \<mapsto> Bitmap (enc im))\<rparr>))"

section \<open>\<^verbatim>\<open>main\<close>\<close>

definition usage_lines :: "string list" where
  "usage_lines =
     [''Done. To use the .mcfunction file:'',
      ''  - Place it in a datapack functions folder (e.g. datapacks/<pack>/data/<namespace>/functions/<name>.mcfunction)'',
      ''  - Run in-game with: /function <namespace>:<name>'',
      ''Or open the .mcfunction in a command block chain or paste into console (beware very large commands lists).'']"

text \<open>
  The run from line 97 on, given the decoded image flattened onto white (lines 92 to 95
  are the imaging library's), the resampling filter used for the downscale and the
  encoders of \<^verbatim>\<open>save\<close>. The result is the exception that ended the run, if any, and the
  files and output after it. \<open>finish\<close> is the part after the command file is written:
  the optional preview and the closing lines.
\<close>

definition finish :: "codec \<Rightarrow> args \<Rightarrow> nat \<Rightarrow> nat \<Rightarrow> int32 list list \<Rightarrow> rgb16 list \<Rightarrow> world
    \<Rightarrow> (error + unit) \<times> world" where
  "finish codec a H W mapped_idxs palette_colors wd1 =
     (case preview a of
        None \<Rightarrow> (Inr (), wd1\<lparr>stdout := stdout wd1 @ usage_lines\<rparr>)
      | Some path \<Rightarrow>
          (if path = [] then (Inr (), wd1\<lparr>stdout := stdout wd1 @ usage_lines\<rparr>)
           else (case render_preview H W mapped_idxs palette_colors of
                   Inl e \<Rightarrow> (Inl e, wd1)
                 | Inr pv \<Rightarrow>
                     (case save_preview codec pv path wd1 of
                        Inl e \<Rightarrow> (Inl e, wd1)
                      | Inr wd2 \<Rightarrow>
                          (Inr (), wd2\<lparr>stdout := stdout wd2 @ [''Saved preview: '' @ path]
                                                    @ usage_lines\<rparr>)))))"

definition main :: "resample \<Rightarrow> codec \<Rightarrow> args \<Rightarrow> image \<Rightarrow> world \<Rightarrow> (error + unit) \<times> world" where
  "main LANCZOS codec a im wd =
     (case normalize LANCZOS a im of
        Inl e \<Rightarrow> (Inl e, wd)
      | Inr im_small \<Rightarrow>
          (let palette = PALETTES (blocktype a);
               palette_names = map fst palette;
               palette_colors = np_array_int16 (map snd palette);
               pixels = np_array im_small;
               H = size_h im_small;
               W = size_w im_small
           in (case quantize pixels H W palette_colors of
                 Inl e \<Rightarrow> (Inl e, wd)
               | Inr mapped_idxs \<Rightarrow>
                   (case build_commands a H W mapped_idxs palette_names of
                      Inl e \<Rightarrow> (Inl e, wd)
                    | Inr commands \<Rightarrow>
                        finish codec a H W mapped_idxs palette_colors
                          (make_mcfunction commands (out a) wd)))))"

section \<open>Notions of the specification\<close>

text \<open>
  The sequential scan of the specification (4.2): the palette is read in order and an
  entry replaces the best one so far only when it is strictly nearer, so the first
  minimum found is kept. \<open>scan_from rgb i best bd cs\<close> continues at index \<open>i\<close> with the
  best index \<open>best\<close> and its distance \<open>bd\<close>.
\<close>

fun scan_from :: "rgb8 \<Rightarrow> nat \<Rightarrow> nat \<Rightarrow> int \<Rightarrow> rgb8 list \<Rightarrow> nat" where
  "scan_from rgb i best bd [] = best"
| "scan_from rgb i best bd (c # cs) =
     (if sqdist rgb c < bd then scan_from rgb (Suc i) i (sqdist rgb c) cs
      else scan_from rgb (Suc i) best bd cs)"

fun sequential_scan :: "rgb8 \<Rightarrow> rgb8 list \<Rightarrow> nat option" where
  "sequential_scan rgb [] = None"
| "sequential_scan rgb (c # cs) = Some (scan_from rgb 1 0 (sqdist rgb c) cs)"

text \<open>The colours of a built-in palette as pixels, in palette order.\<close>

definition palette_rgb8 :: "blocktype \<Rightarrow> rgb8 list" where
  "palette_rgb8 bt = map (\<lambda>(n, (r, g, b)). (word_of_int r, word_of_int g, word_of_int b)) (PALETTES bt)"

text \<open>
  The matched palette entry of a pixel: the index the sequential scan finds in the
  palette of a block family.
\<close>

definition matched_index :: "blocktype \<Rightarrow> rgb8 \<Rightarrow> nat" where
  "matched_index bt rgb = (case sequential_scan rgb (palette_rgb8 bt) of None \<Rightarrow> 0 | Some i \<Rightarrow> i)"

text \<open>The index grid of an image: the matched index of each pixel, row by row.\<close>

definition index_grid :: "blocktype \<Rightarrow> image \<Rightarrow> int32 list list" where
  "index_grid bt im =
     map (\<lambda>y. map (\<lambda>x. word_of_nat (matched_index bt (px im (x, y)))) [0..<size_w im]) [0..<size_h im]"

text \<open>
  A quantized grid (section 3): \<open>H\<close> rows of \<open>W\<close> indices, each in the range of a
  palette of \<open>n\<close> entries.
\<close>

definition quantized_grid :: "nat \<Rightarrow> nat \<Rightarrow> nat \<Rightarrow> int32 list list \<Rightarrow> bool" where
  "quantized_grid H W n g =
     (length g = H \<and> list_all (\<lambda>row. length row = W \<and> list_all (\<lambda>v. 0 \<le> sint v \<and> sint v < int n) row) g)"

text \<open>The fields of a line: the pieces between occurrences of a separator.\<close>

fun split_on :: "char \<Rightarrow> string \<Rightarrow> string list" where
  "split_on s [] = [[]]"
| "split_on s (c # cs) =
     (if c = s then [] # split_on s cs
      else (case split_on s cs of [] \<Rightarrow> [[c]] | w # ws \<Rightarrow> (c # w) # ws))"

text \<open>The number a string of decimal digits denotes.\<close>

definition digit_value :: "char \<Rightarrow> nat" where
  "digit_value c = of_char c - 48"

definition decimal_value :: "string \<Rightarrow> nat" where
  "decimal_value ds = foldl (\<lambda>v c. 10 * v + digit_value c) 0 ds"

text \<open>
  The command of the cell at \<open>(row, col)\<close> as section 4.3 gives it: horizontal offset
  \<open>start_x + col\<close>, height \<open>start_y\<close>, depth offset \<open>start_z + row\<close> when flipped and
  \<open>start_z + (H - 1 - row)\<close> otherwise, and the block named after the matched colour.
  \<open>spec_commands\<close> lists the cells row by row.
\<close>

definition spec_command :: "args \<Rightarrow> nat \<Rightarrow> string list \<Rightarrow> int32 list list \<Rightarrow> nat \<Rightarrow> nat \<Rightarrow> string" where
  "spec_command a H names g row col =
     build_setblock_cmd (startx a + int col) (starty a)
       (startz a + (if flipy a then int row else int H - 1 - int row))
       (''minecraft:'' @ names ! nat (sint (g ! row ! col)) @ ''_'' @ blocktype_name (blocktype a))"

definition spec_commands :: "args \<Rightarrow> nat \<Rightarrow> nat \<Rightarrow> string list \<Rightarrow> int32 list list \<Rightarrow> string list" where
  "spec_commands a H W names g =
     concat (map (\<lambda>row. map (spec_command a H names g row) [0..<W]) [0..<H])"

section \<open>The end-to-end example of the specification\<close>

text \<open>
  Section 8: a 2 by 1 image with pixels (255, 255, 255) and (20, 21, 25), width 2, family
  concrete, start (0, 64, 0), no flip. \<open>example_grid\<close> is its quantized grid (white,
  then black), \<open>example_column\<close> the same two cells one above the other, and
  \<open>keep_pixels\<close> stands for a resampling filter that leaves an image of the requested
  size as it is, and \<open>png_only\<close> for a library that knows one path, written lossless.
\<close>

definition example_args :: args where
  "example_args =
     \<lparr>infile = ''input.png'', width = 2, out = ''pixelart.mcfunction'',
      startx = 0, starty = 64, startz = 0, blocktype = Concrete, flipy = False,
      preview = Some ''preview.png'', max_commands = 100000\<rparr>"

definition example_image :: image where
  "example_image =
     \<lparr>size_w = 2, size_h = 1,
      px = (\<lambda>xy. if fst xy = 0 then (255, 255, 255) else (20, 21, 25))\<rparr>"

definition example_grid :: "int32 list list" where
  "example_grid = [[0, 15]]"

definition example_column :: "int32 list list" where
  "example_column = [[0], [15]]"

definition keep_pixels :: resample where
  "keep_pixels im sz xy = px im xy"

definition png_only :: codec where
  "png_only path = (if path = ''preview.png'' then Some (\<lambda>im. im) else None)"

definition empty_world :: world where
  "empty_world = \<lparr>files = Map.empty, stdout = []\<rparr>"

section \<open>The quantizer returns the first nearest palette entry\<close>

lemma stb15: "- 256 < k \<Longrightarrow> k < 256 \<Longrightarrow> signed_take_bit 15 (k::int) = k"
  by (intro signed_take_bit_int_eq_self) auto

lemma stb31: "0 \<le> k \<Longrightarrow> k < 65536 \<Longrightarrow> signed_take_bit 31 (k::int) = k"
  by (intro signed_take_bit_int_eq_self) auto

lemma stb63: "0 \<le> k \<Longrightarrow> k < 196608 \<Longrightarrow> signed_take_bit 63 (k::int) = k"
  by (intro signed_take_bit_int_eq_self) auto

lemma uint8_diff_range: "- 256 < uint (a::uint8) - uint (b::uint8) \<and> uint a - uint b < 256"
proof -
  have "0 \<le> uint a" "0 \<le> uint b" by simp_all
  moreover have "uint a < 256" "uint b < 256"
    using uint_lt2p [of a] uint_lt2p [of b] by simp_all
  ultimately show ?thesis by linarith
qed

lemma sint_ucast8: "sint (ucast (b::uint8) :: int16) = uint b"
proof -
  have "signed_take_bit 15 (uint b) = uint b"
    using uint8_diff_range [of b 0] by (intro stb15) simp_all
  then show ?thesis
    by (simp add: sint_uint uint_up_ucast is_up)
qed

lemma sint_diff8: "sint ((ucast (a::uint8) :: int16) - ucast (b::uint8)) = uint a - uint b"
proof -
  have "signed_take_bit 15 (uint a - uint b) = uint a - uint b"
    using uint8_diff_range [of a b] by (intro stb15) simp_all
  then show ?thesis
    by (simp add: sint_word_diff sint_ucast8)
qed

lemma sq_bound: assumes "- 256 < (x::int) \<and> x < 256" shows "0 \<le> x\<^sup>2 \<and> x\<^sup>2 < 65536"
proof -
  have "\<bar>x\<bar> < 256" using assms by linarith
  then have "\<bar>x\<bar> * \<bar>x\<bar> < 256 * 256"
    by (intro mult_strict_mono) simp_all
  then show ?thesis by (simp add: power2_eq_square)
qed

lemma sint_sq32: assumes "- 256 < sint d \<and> sint d < 256" shows "sint (sq32 d) = (sint d)\<^sup>2"
proof -
  have s: "sint (scast d :: int32) = sint d"
    by (simp add: sint_up_scast is_up)
  have "signed_take_bit 31 ((sint d)\<^sup>2) = (sint d)\<^sup>2"
    using sq_bound [OF assms] by (intro stb31) simp_all
  then show ?thesis 
    by (simp add: sq32_def sint_word_mult s power2_eq_square)
qed

lemma sint_sum3:
  assumes "0 \<le> sint x \<and> sint x < 65536" "0 \<le> sint y \<and> sint y < 65536" "0 \<le> sint z \<and> sint z < 65536"
  shows "sint (scast (x::int32) + scast (y::int32) + scast (z::int32) :: int64) = sint x + sint y + sint z"
proof -
  have s: "sint (scast w :: int64) = sint w" for w :: int32
    by (simp add: sint_up_scast is_up)
  have 1: "signed_take_bit 63 (sint x + sint y) = sint x + sint y"
    using assms by (intro stb63) linarith+
  have 2: "signed_take_bit 63 (sint x + sint y + sint z) = sint x + sint y + sint z"
    using assms by (intro stb63) linarith+
  show ?thesis
    by (simp add: sint_word_ariths s 1 2)
qed

lemma row_dist_sqdist:
  "sint (row_dist (diff16 (np_int16 p) (np_int16 q))) = sqdist p q"
proof -
  obtain pr pg pb where p: "p = (pr, pg, pb)" by (cases p)
  obtain qr qg qb where q: "q = (qr, qg, qb)" by (cases q)
  have d: "- 256 < sint ((ucast a :: int16) - ucast b) \<and> sint ((ucast a :: int16) - ucast b) < 256" for a b :: uint8
    unfolding sint_diff8 by (rule uint8_diff_range)
  have e: "sint (sq32 (ucast a - ucast b)) = (uint a - uint b)\<^sup>2" for a b :: uint8
    using sint_sq32 [OF d [of a b]] by (simp only: sint_diff8)
  have f: "0 \<le> sint (sq32 (ucast a - ucast b)) \<and> sint (sq32 (ucast a - ucast b)) < 65536" for a b :: uint8
    unfolding e by (rule sq_bound [OF uint8_diff_range])
  show ?thesis
    unfolding p q row_dist_def diff16_def np_int16_def sqdist_def prod.case
    by (simp only: sint_sum3 [OF f f f] e)
qed

lemma fold_smin_in: "fold smin xs x \<in> set (x # xs)"
  by (induction xs arbitrary: x) (auto simp: smin_def)

lemma fold_smin_le_init: "sint (fold smin xs x) \<le> sint x"
proof (induction xs arbitrary: x)
  case Nil
  show ?case by simp
next
  case (Cons y ys)
  have "sint (fold smin ys (smin y x)) \<le> sint (smin y x)" by (rule Cons.IH)
  also have "sint (smin y x) \<le> sint x" by (simp add: smin_def)
  finally show ?case by simp
qed

lemma fold_smin_le: "y \<in> set (x # xs) \<Longrightarrow> sint (fold smin xs x) \<le> sint y"
proof (induction xs arbitrary: x)
  case Nil
  then show ?case by simp
next
  case (Cons z zs)
  have m: "sint (smin z x) \<le> sint x" "sint (smin z x) \<le> sint z"
    by (simp_all add: smin_def)
  from Cons.prems consider "y = x" | "y = z" | "y \<in> set zs" by auto
  then show ?case
  proof cases
    case 1
    with fold_smin_le_init [of zs "smin z x"] m show ?thesis by simp
  next
    case 2
    with fold_smin_le_init [of zs "smin z x"] m show ?thesis by simp
  next
    case 3
    then have "y \<in> set (smin z x # zs)" by simp
    from Cons.IH [OF this] show ?thesis by simp
  qed
qed

lemma first_index_less: "v \<in> set xs \<Longrightarrow> first_index v xs < length xs"
  by (induction xs) auto

lemma first_index_nth: "v \<in> set xs \<Longrightarrow> xs ! first_index v xs = v"
  by (induction xs) auto

lemma first_index_first: "j < first_index v xs \<Longrightarrow> xs ! j \<noteq> v"
proof (induction xs arbitrary: j)
  case Nil
  then show ?case by simp
next
  case (Cons x xs)
  then show ?case by (cases j) (auto split: if_splits)
qed

lemma np_argmin_first_min:
  assumes "a \<noteq> []"
  shows "\<exists>i. np_argmin a = Inr i \<and> i < length a
           \<and> (\<forall>j < length a. sint (a ! i) \<le> sint (a ! j))
           \<and> (\<forall>j < i. sint (a ! i) < sint (a ! j))"
proof -
  obtain x xs where a: "a = x # xs" using assms by (cases a) auto
  define m where "m = fold smin xs x"
  define i where "i = first_index m a"
  have min: "m \<in> set a" unfolding m_def a by (rule fold_smin_in)
  have r: "np_argmin a = Inr i" by (simp add: np_argmin_def a i_def m_def)
  have l: "i < length a" unfolding i_def using min by (rule first_index_less)
  have n: "a ! i = m" unfolding i_def using min by (rule first_index_nth)
  have le: "sint m \<le> sint (a ! j)" if "j < length a" for j
  proof -
    from that have "a ! j \<in> set (x # xs)" unfolding a by (intro nth_mem) simp
    then show ?thesis unfolding m_def by (rule fold_smin_le)
  qed
  have lt: "sint m < sint (a ! j)" if "j < i" for j
  proof -
    from that have "a ! j \<noteq> m" unfolding i_def by (rule first_index_first)
    then have "sint (a ! j) \<noteq> sint m" by (auto dest: signed_word_eqI)
    moreover have "sint m \<le> sint (a ! j)" using that l by (intro le) simp
    ultimately show ?thesis by simp
  qed
  from r l n le lt show ?thesis by auto
qed

lemma np_array_int16_rgb: "np_array_int16 (map rgb_ints pal) = map np_int16 pal"
  by (auto simp: np_array_int16_def rgb_ints_def np_int16_def)

lemma sqdist_sym: "sqdist p q = sqdist q p"
proof -
  obtain pr pg pb where p: "p = (pr, pg, pb)" by (cases p)
  obtain qr qg qb where q: "q = (qr, qg, qb)" by (cases q)
  show ?thesis
    unfolding p q sqdist_def prod.case
    by (simp only: power2_commute [of "uint pr"] power2_commute [of "uint pg"]
        power2_commute [of "uint pb"])
qed

lemma sum3_squares_zero: "(x::int)\<^sup>2 + y\<^sup>2 + z\<^sup>2 = 0 \<longleftrightarrow> x = 0 \<and> y = 0 \<and> z = 0"
proof
  assume h: "x\<^sup>2 + y\<^sup>2 + z\<^sup>2 = 0"
  have "0 \<le> x\<^sup>2" "0 \<le> y\<^sup>2" "0 \<le> z\<^sup>2" by simp_all
  with h have "x\<^sup>2 = 0" "y\<^sup>2 = 0" "z\<^sup>2 = 0" by linarith+
  then show "x = 0 \<and> y = 0 \<and> z = 0" by simp
qed simp

lemma sqdist_zero_iff: "sqdist p q = 0 \<longleftrightarrow> p = q"
proof -
  obtain pr pg pb where p: "p = (pr, pg, pb)" by (cases p)
  obtain qr qg qb where q: "q = (qr, qg, qb)" by (cases q)
  have e: "uint a - uint b = 0 \<longleftrightarrow> a = b" for a b :: uint8
    by (auto dest: word_uint_eqI)
  show ?thesis unfolding p q sqdist_def prod.case sum3_squares_zero e by simp
qed

lemma nearest_color_first_min:
  assumes "pal \<noteq> []"
  shows "\<exists>i. nearest_color rgb (np_array_int16 (map rgb_ints pal)) = Inr i
           \<and> i < length pal
           \<and> (\<forall>j < length pal. sqdist rgb (pal ! i) \<le> sqdist rgb (pal ! j))
           \<and> (\<forall>j < i. sqdist rgb (pal ! i) < sqdist rgb (pal ! j))"
proof -
  define dists where "dists = map (\<lambda>p. row_dist (diff16 (np_int16 p) (np_int16 rgb))) pal"
  have nc: "nearest_color rgb (np_array_int16 (map rgb_ints pal)) = np_argmin dists"
    by (simp add: nearest_color_def np_array_int16_rgb dists_def comp_def)
  have len: "length dists = length pal" by (simp add: dists_def)
  have d: "sint (dists ! j) = sqdist rgb (pal ! j)" if "j < length pal" for j
    using that by (simp add: dists_def row_dist_sqdist sqdist_sym [of rgb])
  have "dists \<noteq> []" using assms by (simp add: dists_def)
  from np_argmin_first_min [OF this] obtain i where
    r: "np_argmin dists = Inr i" and l: "i < length pal"
    and le: "\<forall>j < length pal. sint (dists ! i) \<le> sint (dists ! j)"
    and lt: "\<forall>j < i. sint (dists ! i) < sint (dists ! j)"
    unfolding len by blast
  have le': "sqdist rgb (pal ! i) \<le> sqdist rgb (pal ! j)" if "j < length pal" for j
    using le that l by (simp add: d)
  have lt': "sqdist rgb (pal ! i) < sqdist rgb (pal ! j)" if "j < i" for j
    using lt that l by (simp add: d)
  show ?thesis
    unfolding nc r
    using l le' lt' by (intro exI [of _ i] conjI allI impI) blast+
qed

text \<open>
  C1. For every pixel and every non-empty palette of RGB triples, \<^verbatim>\<open>nearest_color\<close>
  returns an index into the palette whose squared Euclidean distance to the pixel is
  minimal over the whole palette; every entry before it is strictly farther, so among
  equidistant entries the lowest index wins; and when some entry equals the pixel, the
  returned entry equals the pixel too, at distance 0 and at the first such index (the
  index of that very entry when the palette has no repeated colour).
\<close>

theorem nearest_color_minimal:
  assumes "pal \<noteq> []"
  shows "\<exists>i. nearest_color rgb (np_array_int16 (map rgb_ints pal)) = Inr i
           \<and> i < length pal
           \<and> (\<forall>j < length pal. sqdist rgb (pal ! i) \<le> sqdist rgb (pal ! j))
           \<and> (\<forall>j < i. sqdist rgb (pal ! i) < sqdist rgb (pal ! j))
           \<and> (\<forall>k < length pal. pal ! k = rgb \<longrightarrow>
                 pal ! i = rgb \<and> sqdist rgb (pal ! i) = 0 \<and> i \<le> k \<and> (distinct pal \<longrightarrow> i = k))"
proof -
  from nearest_color_first_min [OF assms, of rgb] obtain i where
    r: "nearest_color rgb (np_array_int16 (map rgb_ints pal)) = Inr i" and l: "i < length pal"
    and le: "\<forall>j < length pal. sqdist rgb (pal ! i) \<le> sqdist rgb (pal ! j)"
    and lt: "\<forall>j < i. sqdist rgb (pal ! i) < sqdist rgb (pal ! j)"
    by blast
  have ex: "pal ! i = rgb \<and> sqdist rgb (pal ! i) = 0 \<and> i \<le> k \<and> (distinct pal \<longrightarrow> i = k)"
    if k: "k < length pal" and e: "pal ! k = rgb" for k
  proof -
    have z: "sqdist rgb (pal ! k) = 0" using e by (simp add: sqdist_zero_iff)
    have "0 \<le> sqdist rgb (pal ! i)" by (cases rgb; cases "pal ! i") (simp add: sqdist_def)
    with le k z have z': "sqdist rgb (pal ! i) = 0" by force
    then have pi: "pal ! i = rgb" by (simp add: sqdist_zero_iff)
    have ik: "i \<le> k"
    proof (rule ccontr)
      assume "\<not> i \<le> k"
      then have "k < i" by simp
      with lt z z' show False by force
    qed
    have "i = k" if "distinct pal"
      using that l k pi e by (metis nth_eq_iff_index_eq)
    with z' pi ik show ?thesis by simp
  qed
  show ?thesis
    unfolding r
    using l le lt ex by (intro exI [of _ i] conjI allI impI) blast+
qed

theorem nearest_color_minimal_witness:
  "[(0, 0, 0), (2, 0, 0)] \<noteq> ([] :: rgb8 list)
   \<and> nearest_color (1, 0, 0) (np_array_int16 (map rgb_ints [(0, 0, 0), (2, 0, 0)])) = Inr 0"
proof -
  define pal :: "rgb8 list" where "pal = [(0, 0, 0), (2, 0, 0)]"
  have h: "pal \<noteq> []" by (simp add: pal_def)
  from nearest_color_minimal [OF h, of "(1, 0, 0)"] obtain i where
    r: "nearest_color (1, 0, 0) (np_array_int16 (map rgb_ints pal)) = Inr i"
    and l: "i < length pal"
    and lt: "\<forall>j < i. sqdist (1, 0, 0) (pal ! i) < sqdist (1, 0, 0) (pal ! j)"
    by blast
  have "i = 0"
  proof (rule ccontr)
    assume "i \<noteq> 0"
    with l have i: "i = 1" by (simp add: pal_def)
    from lt i have "sqdist (1, 0, 0) (pal ! 1) < sqdist (1, 0, 0) (pal ! 0)"
      by blast
    then show False by (simp add: pal_def sqdist_def)
  qed
  with r h show ?thesis by (simp add: pal_def)
qed

section \<open>Offset tokens\<close>

lemma digit_cases:
  assumes "d < (10::nat)"
  obtains "d = 0" | "d = 1" | "d = 2" | "d = 3" | "d = 4" | "d = 5"
    | "d = 6" | "d = 7" | "d = 8" | "d = 9"
proof -
  from assms have "d = 0 \<or> d = 1 \<or> d = 2 \<or> d = 3 \<or> d = 4 \<or> d = 5
      \<or> d = 6 \<or> d = 7 \<or> d = 8 \<or> d = 9" by arith
  with that show thesis by blast
qed

lemma digit_char_in: "d < 10 \<Longrightarrow> digit_char d \<in> set ''0123456789''"
  by (erule digit_cases) (simp_all add: digit_char_def)

lemma digit_value_digit_char: "d < 10 \<Longrightarrow> digit_value (digit_char d) = d"
  by (erule digit_cases) (simp_all add: digit_char_def digit_value_def)

lemma digit_char_zero_iff: "d < 10 \<Longrightarrow> digit_char d = CHR ''0'' \<longleftrightarrow> d = 0"
  by (erule digit_cases) (simp_all add: digit_char_def)

lemma str_nat_small: "n < 10 \<Longrightarrow> str_nat n = [digit_char n]"
  by (subst str_nat.simps) simp

lemma str_nat_large: "\<not> n < 10 \<Longrightarrow> str_nat n = str_nat (n div 10) @ [digit_char (n mod 10)]"
  by (subst str_nat.simps) simp

lemma str_nat_digits: "set (str_nat n) \<subseteq> set ''0123456789''"
proof (induction n rule: str_nat.induct)
  case (1 n)
  show ?case
  proof (cases "n < 10")
    case True
    from digit_char_in [OF True] show ?thesis
      unfolding str_nat_small [OF True] by simp
  next
    case False
    have "n mod 10 < 10" by simp
    from digit_char_in [OF this] 1 [OF False] show ?thesis
      unfolding str_nat_large [OF False] by simp
  qed
qed

lemma decimal_value_snoc: "decimal_value (ds @ [c]) = 10 * decimal_value ds + digit_value c"
  by (simp add: decimal_value_def)

lemma decimal_value_str_nat: "decimal_value (str_nat n) = n"
proof (induction n rule: str_nat.induct)
  case (1 n)
  show ?case
  proof (cases "n < 10")
    case True
    then show ?thesis
      by (simp add: str_nat_small decimal_value_def digit_value_digit_char)
  next
    case False
    have "n mod 10 < 10" by simp
    with 1 [OF False] False show ?thesis
      by (simp add: str_nat_large decimal_value_snoc digit_value_digit_char)
  qed
qed

lemma str_nat_nonempty: "str_nat n \<noteq> []"
  by (subst str_nat.simps) simp

lemma str_nat_no_leading_zero: "0 < n \<Longrightarrow> hd (str_nat n) \<noteq> CHR ''0''"
proof (induction n rule: str_nat.induct)
  case (1 n)
  show ?case
  proof (cases "n < 10")
    case True
    with "1.prems" show ?thesis by (simp add: str_nat_small digit_char_zero_iff)
  next
    case False
    then have "0 < n div 10" by simp
    with 1 False have "hd (str_nat (n div 10)) \<noteq> CHR ''0''" by simp
    with False show ?thesis
      by (simp add: str_nat_large str_nat_nonempty)
  qed
qed

text \<open>
  C7. The coordinate token of offset 0 is the marker \<open>~\<close> alone. For a nonzero offset it
  is the marker immediately followed by the signed decimal integer: a minus sign exactly
  when the offset is negative, then the decimal digits of its absolute value, without a
  leading zero and without a space. In particular 5 gives \<open>~5\<close> and -3 gives \<open>~-3\<close>.
\<close>

theorem offset_token_format:
  "offset_token 0 = ''~''
   \<and> (off \<noteq> 0 \<longrightarrow>
        (\<exists>ds. offset_token off = ''~'' @ (if off < 0 then ''-'' else '''') @ ds
           \<and> ds \<noteq> [] \<and> set ds \<subseteq> set ''0123456789'' \<and> hd ds \<noteq> CHR ''0''
           \<and> int (decimal_value ds) = \<bar>off\<bar>))
   \<and> offset_token 5 = ''~5'' \<and> offset_token (- 3) = ''~-3''"
proof -
  have z: "offset_token 0 = ''~''" by (simp add: offset_token_def)
  have nz: "\<exists>ds. offset_token off = ''~'' @ (if off < 0 then ''-'' else '''') @ ds
           \<and> ds \<noteq> [] \<and> set ds \<subseteq> set ''0123456789'' \<and> hd ds \<noteq> CHR ''0''
           \<and> int (decimal_value ds) = \<bar>off\<bar>" if "off \<noteq> 0"
  proof -
    define n where "n = nat \<bar>off\<bar>"
    have n: "0 < n" "int n = \<bar>off\<bar>" using that by (simp_all add: n_def)
    have t: "offset_token off = ''~'' @ (if off < 0 then ''-'' else '''') @ str_nat n"
      using that by (auto simp: offset_token_def str_int_def n_def)
    show ?thesis
      using t n str_nat_nonempty [of n] str_nat_digits [of n] str_nat_no_leading_zero [of n]
        decimal_value_str_nat [of n]
      by (intro exI [of _ "str_nat n"]) simp
  qed
  have e5: "offset_token 5 = ''~5''"
    by (simp add: offset_token_def str_int_def str_nat_small digit_char_def)
  have e3: "offset_token (- 3) = ''~-3''"
    by (simp add: offset_token_def str_int_def str_nat_small digit_char_def)
  from z nz e5 e3 show ?thesis by blast
qed

theorem offset_token_format_witness:
  "(- 42 :: int) \<noteq> 0 \<and> offset_token (- 42) = ''~-42'' \<and> decimal_value ''42'' = 42"
proof -
  have h: "(- 42 :: int) \<noteq> 0" by simp
  from offset_token_format [of "- 42"] h obtain ds where
    t: "offset_token (- 42) = ''~'' @ (if (- 42 :: int) < 0 then ''-'' else '''') @ ds"
    and d: "int (decimal_value ds) = \<bar>- 42\<bar>"
    by blast
  have e: "offset_token (- 42) = ''~-42''"
    by (simp add: offset_token_def str_int_def str_nat_large str_nat_small digit_char_def)
  from t e have "ds = ''42''" by simp
  with d e h show ?thesis by simp
qed

section \<open>The emitter loop\<close>

lemma for_loop_append:
  assumes "\<And>x s. x \<in> set xs \<Longrightarrow>
    body x s = (if g x \<noteq> [] \<and> m < int (length s + length (g x)) then Inl e else Inr (s @ g x))"
  shows "for_loop xs body s =
    (if concat (map g xs) \<noteq> [] \<and> m < int (length s + length (concat (map g xs))) then Inl e
     else Inr (s @ concat (map g xs)))"
  using assms
proof (induction xs arbitrary: s)
  case Nil
  show ?case by simp
next
  case (Cons x xs)
  have b: "body x s = (if g x \<noteq> [] \<and> m < int (length s + length (g x)) then Inl e else Inr (s @ g x))"
    by (rule Cons.prems) simp
  have ih: "for_loop xs body t =
    (if concat (map g xs) \<noteq> [] \<and> m < int (length t + length (concat (map g xs))) then Inl e
     else Inr (t @ concat (map g xs)))" for t
    by (rule Cons.IH) (simp add: Cons.prems)
  show ?case
  proof (cases "g x \<noteq> [] \<and> m < int (length s + length (g x))")
    case True
    then have "body x s = Inl e" unfolding b by (rule if_P)
    then have r: "for_loop (x # xs) body s = Inl e" by simp
    from True have c: "concat (map g (x # xs)) \<noteq> []
        \<and> m < int (length s + length (concat (map g (x # xs))))" by auto
    show ?thesis unfolding r if_P [OF c] by (rule refl)
  next
    case False
    then have "body x s = Inr (s @ g x)" unfolding b by (rule if_not_P)
    then have "for_loop (x # xs) body s = for_loop xs body (s @ g x)" by simp
    also note ih [of "s @ g x"]
    finally have r: "for_loop (x # xs) body s =
      (if concat (map g xs) \<noteq> [] \<and> m < int (length (s @ g x) + length (concat (map g xs)))
       then Inl e else Inr ((s @ g x) @ concat (map g xs)))" .
    have c: "(concat (map g xs) \<noteq> [] \<and> m < int (length (s @ g x) + length (concat (map g xs))))
      \<longleftrightarrow> (concat (map g (x # xs)) \<noteq> []
        \<and> m < int (length s + length (concat (map g (x # xs)))))"
    proof (cases "concat (map g xs) = []")
      case True
      have l: "concat (map g (x # xs)) = g x"
        using True by (simp del: concat_eq_Nil_conv)
      from False show ?thesis unfolding l True by simp
    next
      case nonempty: False
      then have "concat (map g (x # xs)) \<noteq> []"
        by (simp del: concat_eq_Nil_conv)
      with nonempty show ?thesis by (simp add: add.assoc del: concat_eq_Nil_conv)
    qed
    show ?thesis unfolding r c by simp
  qed
qed

lemma quantized_grid_cell:
  assumes "quantized_grid H W n g" "row < H" "col < W"
  shows "length g = H \<and> length (g ! row) = W
    \<and> 0 \<le> sint (g ! row ! col) \<and> sint (g ! row ! col) < int n"
  using assms by (simp add: quantized_grid_def list_all_length)

lemma py_index_in_range:
  "0 \<le> i \<Longrightarrow> i < int (length xs) \<Longrightarrow> py_index xs i = Inr (xs ! nat i)"
  by (simp add: py_index_def)

lemma emit_cell_valid:
  assumes "quantized_grid H W (length names) g" "row < H" "col < W"
  shows "emit_cell a g names (starty a)
      (if flipy a then int row else int H - 1 - int row) row col cmds =
    (if [spec_command a H names g row col] \<noteq> []
        \<and> max_commands a < int (length cmds + length [spec_command a H names g row col])
     then Inl (SystemExit (limit_message (max_commands a)))
     else Inr (cmds @ [spec_command a H names g row col]))"
proof -
  from quantized_grid_cell [OF assms]
  have "py_index names (sint (g ! row ! col)) = Inr (names ! nat (sint (g ! row ! col)))"
    by (intro py_index_in_range) simp_all
  then show ?thesis
    by (simp add: emit_cell_def spec_command_def Let_def)
qed

lemma concat_singletons: "concat (map (\<lambda>x. [f x]) xs) = map f xs"
  by (induction xs) simp_all

lemma emit_row_valid:
  assumes "quantized_grid H W (length names) g" "row < H"
  shows "for_loop [0..<W]
      (emit_cell a g names (starty a) (if flipy a then int row else int H - 1 - int row) row) cmds =
    (if map (spec_command a H names g row) [0..<W] \<noteq> []
        \<and> max_commands a < int (length cmds + length (map (spec_command a H names g row) [0..<W]))
     then Inl (SystemExit (limit_message (max_commands a)))
     else Inr (cmds @ map (spec_command a H names g row) [0..<W]))"
proof -
  have "for_loop [0..<W]
      (emit_cell a g names (starty a) (if flipy a then int row else int H - 1 - int row) row) cmds =
    (if concat (map (\<lambda>col. [spec_command a H names g row col]) [0..<W]) \<noteq> []
        \<and> max_commands a < int (length cmds
             + length (concat (map (\<lambda>col. [spec_command a H names g row col]) [0..<W])))
     then Inl (SystemExit (limit_message (max_commands a)))
     else Inr (cmds @ concat (map (\<lambda>col. [spec_command a H names g row col]) [0..<W])))"
    by (rule for_loop_append) (simp add: emit_cell_valid [OF assms])
  then show ?thesis by (simp only: concat_singletons)
qed

lemma build_commands_valid:
  assumes "quantized_grid H W (length names) g"
  shows "build_commands a H W g names =
    (if spec_commands a H W names g \<noteq> [] \<and> max_commands a < int (length (spec_commands a H W names g))
     then Inl (SystemExit (limit_message (max_commands a)))
     else Inr (spec_commands a H W names g))"
proof -
  have "for_loop [0..<H]
       (\<lambda>row_idx commands.
          let y = starty a;
              z_offset_row = (if flipy a then int row_idx else int H - 1 - int row_idx)
          in for_loop [0..<W] (emit_cell a g names y z_offset_row row_idx) commands) [] =
    (if concat (map (\<lambda>row. map (spec_command a H names g row) [0..<W]) [0..<H]) \<noteq> []
        \<and> max_commands a < int (length ([]::string list)
             + length (concat (map (\<lambda>row. map (spec_command a H names g row) [0..<W]) [0..<H])))
     then Inl (SystemExit (limit_message (max_commands a)))
     else Inr ([] @ concat (map (\<lambda>row. map (spec_command a H names g row) [0..<W]) [0..<H])))"
    by (rule for_loop_append) (simp add: Let_def emit_row_valid [OF assms])
  then show ?thesis by (simp add: build_commands_def spec_commands_def)
qed

lemma upt_shift_map: "map f [k..<k + W] = map (\<lambda>c. f (k + c)) [0..<W]"
proof -
  have "[k..<k + W] = map (\<lambda>c. k + c) [0..<W]"
    by (simp add: map_add_upt add.commute)
  then show ?thesis by (simp add: comp_def)
qed

lemma concat_rows_flat:
  "concat (map (\<lambda>row. map (f row) [0..<W]) [0..<H]) = map (\<lambda>k. f (k div W) (k mod W)) [0..<H * W]"
proof (induction H)
  case 0
  show ?case by simp
next
  case (Suc H)
  have split: "[0..<Suc H * W] = [0..<H * W] @ [H * W..<H * W + W]"
    using upt_add_eq_append [of 0 "H * W" W] by (simp add: add.commute)
  have "map (\<lambda>k. f (k div W) (k mod W)) [H * W..<H * W + W]
      = map (\<lambda>c. f ((H * W + c) div W) ((H * W + c) mod W)) [0..<W]"
    by (rule upt_shift_map)
  also have "\<dots> = map (f H) [0..<W]"
    by (rule map_cong) auto
  finally have last: "map (\<lambda>k. f (k div W) (k mod W)) [H * W..<H * W + W] = map (f H) [0..<W]" .
  have "concat (map (\<lambda>row. map (f row) [0..<W]) [0..<Suc H])
      = concat (map (\<lambda>row. map (f row) [0..<W]) [0..<H]) @ map (f H) [0..<W]"
    by simp
  also have "\<dots> = map (\<lambda>k. f (k div W) (k mod W)) [0..<H * W]
      @ map (\<lambda>k. f (k div W) (k mod W)) [H * W..<H * W + W]"
    by (simp only: Suc.IH last)
  also have "\<dots> = map (\<lambda>k. f (k div W) (k mod W)) [0..<Suc H * W]"
    by (simp only: split map_append)
  finally show ?case .
qed

lemma length_spec_commands: "length (spec_commands a H W names g) = H * W"
  by (simp add: spec_commands_def concat_rows_flat)

lemma flat_index:
  assumes "row < H" "col < (W::nat)"
  shows "row * W + col < H * W \<and> (row * W + col) div W = row \<and> (row * W + col) mod W = col"
proof -
  have "row * W + col < row * W + W" using assms by simp
  also have "\<dots> = Suc row * W" by simp
  also have "\<dots> \<le> H * W" using assms by (intro mult_le_mono1) simp
  finally have "row * W + col < H * W" .
  with assms show ?thesis by simp
qed

lemma spec_commands_nth:
  assumes "row < H" "col < W"
  shows "spec_commands a H W names g ! (row * W + col) = spec_command a H names g row col"
  using flat_index [OF assms] by (simp add: spec_commands_def concat_rows_flat)

section \<open>Characters and fields of a command\<close>

lemma str_nat_no_sep: "CHR '' '' \<notin> set (str_nat n) \<and> CHR 0x0A \<notin> set (str_nat n)"
proof -
  have "CHR '' '' \<notin> set ''0123456789''" "CHR 0x0A \<notin> set ''0123456789''" by simp_all
  with str_nat_digits [of n] show ?thesis by blast
qed

lemma str_int_no_sep: "CHR '' '' \<notin> set (str_int i) \<and> CHR 0x0A \<notin> set (str_int i)"
  using str_nat_no_sep [of "nat i"] str_nat_no_sep [of "nat (- i)"]
  by (simp add: str_int_def)

lemma offset_token_no_sep: "CHR '' '' \<notin> set (offset_token i) \<and> CHR 0x0A \<notin> set (offset_token i)"
  using str_int_no_sep [of i] by (simp add: offset_token_def)

lemma concrete_names_no_sep:
  assumes "n \<in> set (map fst CONCRETE_PALETTE)"
  shows "CHR '' '' \<notin> set n \<and> CHR 0x0A \<notin> set n"
proof -
  have "list_all (\<lambda>n. CHR '' '' \<notin> set n \<and> CHR 0x0A \<notin> set n) (map fst CONCRETE_PALETTE)"
    by (simp add: CONCRETE_PALETTE_def)
  with assms show ?thesis unfolding list_all_iff by blast
qed

lemma wool_names_no_sep:
  assumes "n \<in> set (map fst WOOL_PALETTE)"
  shows "CHR '' '' \<notin> set n \<and> CHR 0x0A \<notin> set n"
proof -
  have "list_all (\<lambda>n. CHR '' '' \<notin> set n \<and> CHR 0x0A \<notin> set n) (map fst WOOL_PALETTE)"
    by (simp add: WOOL_PALETTE_def)
  with assms show ?thesis unfolding list_all_iff by blast
qed

lemma palette_names_no_sep:
  "n \<in> set (map fst (PALETTES bt)) \<Longrightarrow> CHR '' '' \<notin> set n \<and> CHR 0x0A \<notin> set n"
proof (cases bt)
  case Concrete
  assume "n \<in> set (map fst (PALETTES bt))"
  then show ?thesis unfolding Concrete PALETTES.simps by (rule concrete_names_no_sep)
next
  case Wool
  assume "n \<in> set (map fst (PALETTES bt))"
  then show ?thesis unfolding Wool PALETTES.simps by (rule wool_names_no_sep)
qed

lemma length_PALETTES: "length (PALETTES bt) = 16"
  by (cases bt) (simp_all add: CONCRETE_PALETTE_def WOOL_PALETTE_def)

lemma blocktype_name_no_sep:
  "CHR '' '' \<notin> set (blocktype_name bt) \<and> CHR 0x0A \<notin> set (blocktype_name bt)"
  by (cases bt) simp_all

lemma split_on_field: "s \<notin> set w \<Longrightarrow> split_on s (w @ s # rest) = w # split_on s rest"
  by (induction w) auto

lemma split_on_last: "s \<notin> set w \<Longrightarrow> split_on s w = [w]"
  by (induction w) auto

lemma split_lines:
  "\<forall>c \<in> set cmds. s \<notin> set c \<Longrightarrow> split_on s (concat (map (\<lambda>c. c @ [s]) cmds)) = cmds @ [[]]"
  by (induction cmds) (simp_all add: split_on_field)

lemma build_setblock_cmd_fields:
  assumes "CHR '' '' \<notin> set b"
  shows "split_on (CHR '' '') (build_setblock_cmd x y z b)
    = [''setblock'', offset_token x, str_int y, offset_token z, b, ''replace'']"
proof -
  have "build_setblock_cmd x y z b =
    ''setblock'' @ CHR '' '' # (offset_token x @ CHR '' '' # (str_int y @ CHR '' '' #
      (offset_token z @ CHR '' '' # (b @ CHR '' '' # ''replace''))))"
    by (simp add: build_setblock_cmd_def)
  then show ?thesis
    using assms offset_token_no_sep [of x] offset_token_no_sep [of z] str_int_no_sep [of y]
    by (simp only: split_on_field split_on_last) (simp add: split_on_field split_on_last)
qed

lemma build_setblock_cmd_no_newline:
  assumes "CHR 0x0A \<notin> set b"
  shows "CHR 0x0A \<notin> set (build_setblock_cmd x y z b)"
  using assms offset_token_no_sep [of x] offset_token_no_sep [of z] str_int_no_sep [of y]
  by (simp add: build_setblock_cmd_def)

lemma block_name_no_sep:
  assumes "i < 16"
  shows "CHR '' '' \<notin> set (''minecraft:'' @ map fst (PALETTES bt) ! i @ ''_'' @ blocktype_name bt)
    \<and> CHR 0x0A \<notin> set (''minecraft:'' @ map fst (PALETTES bt) ! i @ ''_'' @ blocktype_name bt)"
proof -
  have "map fst (PALETTES bt) ! i \<in> set (map fst (PALETTES bt))"
    using assms by (intro nth_mem) (simp add: length_PALETTES)
  from palette_names_no_sep [OF this] blocktype_name_no_sep [of bt]
  show ?thesis by simp
qed

section \<open>The emitted commands\<close>

lemma build_commands_Inr:
  assumes "quantized_grid H W (length names) g"
    and "build_commands a H W g names = Inr cmds"
  shows "cmds = spec_commands a H W names g"
  using assms(2) unfolding build_commands_valid [OF assms(1)]
  by (simp split: if_splits)

lemma build_commands_under_limit:
  assumes "quantized_grid H W (length names) g"
    and "int (W * H) \<le> max_commands a"
  shows "build_commands a H W g names = Inr (spec_commands a H W names g)"
  using assms(2) unfolding build_commands_valid [OF assms(1)]
  by (simp add: length_spec_commands mult.commute)

text \<open>
  C3. For every cell \<open>(row, col)\<close> of a quantized grid with \<open>H\<close> rows, the command
  emitted for the cell (the one at position \<open>row \<sdot> W + col\<close> of the list) is exactly
  \<open>setblock\<close>, the token of \<open>start_x + col\<close>, the height \<open>start_y\<close> in decimal, the token
  of \<open>start_z + row\<close> when flipped and of \<open>start_z + (H - 1 - row)\<close> otherwise, the block
  identifier \<open>minecraft:\<close> colour name \<open>_\<close> family, and \<open>replace\<close>, separated by single
  spaces.
\<close>

theorem command_shape:
  assumes "quantized_grid H W (length names) g"
    and "build_commands a H W g names = Inr cmds"
    and "row < H" and "col < W"
  shows "cmds ! (row * W + col) =
    ''setblock '' @ offset_token (startx a + int col) @ '' '' @ str_int (starty a) @ '' ''
      @ offset_token (startz a + (if flipy a then int row else int H - 1 - int row))
      @ '' minecraft:'' @ names ! nat (sint (g ! row ! col)) @ ''_''
      @ blocktype_name (blocktype a) @ '' replace''"
proof -
  have "cmds ! (row * W + col) = spec_command a H names g row col"
    unfolding build_commands_Inr [OF assms(1,2)] using assms(3,4) by (rule spec_commands_nth)
  then show ?thesis
    by (simp add: spec_command_def build_setblock_cmd_def)
qed

theorem command_shape_witness:
  "quantized_grid 1 2 (length (map fst (PALETTES Concrete))) example_grid
   \<and> build_commands example_args 1 2 example_grid (map fst (PALETTES Concrete))
       = Inr [''setblock ~ 64 ~ minecraft:white_concrete replace'',
              ''setblock ~1 64 ~ minecraft:black_concrete replace'']
   \<and> (0::nat) < 1 \<and> (1::nat) < 2
   \<and> ''setblock ~1 64 ~ minecraft:black_concrete replace'' =
      ''setblock '' @ offset_token (startx example_args + int 1) @ '' ''
        @ str_int (starty example_args) @ '' ''
        @ offset_token (startz example_args
            + (if flipy example_args then int 0 else int 1 - 1 - int 0))
        @ '' minecraft:'' @ map fst (PALETTES Concrete) ! nat (sint (example_grid ! 0 ! 1)) @ ''_''
        @ blocktype_name (blocktype example_args) @ '' replace''"
proof -
  have g: "quantized_grid 1 2 (length (map fst (PALETTES Concrete))) example_grid"
    by (simp add: quantized_grid_def example_grid_def CONCRETE_PALETTE_def)
  have b: "build_commands example_args 1 2 example_grid (map fst (PALETTES Concrete))
       = Inr [''setblock ~ 64 ~ minecraft:white_concrete replace'',
              ''setblock ~1 64 ~ minecraft:black_concrete replace'']"
    by code_simp
  have r: "(0::nat) < 1" and c: "(1::nat) < 2" by simp_all
  from command_shape [OF g b r c] g b show ?thesis by simp
qed

lemma in_spec_commands:
  assumes "c \<in> set (spec_commands a H W names g)"
  obtains row col where "row < H" "col < W" "c = spec_command a H names g row col"
  using assms by (auto simp: spec_commands_def)

lemma spec_command_block_clean:
  assumes "quantized_grid H W 16 g" "row < H" "col < W"
  shows "CHR '' '' \<notin> set (''minecraft:'' @ map fst (PALETTES (blocktype a)) ! nat (sint (g ! row ! col))
            @ ''_'' @ blocktype_name (blocktype a))
    \<and> CHR 0x0A \<notin> set (''minecraft:'' @ map fst (PALETTES (blocktype a)) ! nat (sint (g ! row ! col))
            @ ''_'' @ blocktype_name (blocktype a))"
proof -
  from quantized_grid_cell [OF assms] have "nat (sint (g ! row ! col)) < 16" by linarith
  then show ?thesis by (rule block_name_no_sep)
qed

lemma spec_command_no_newline:
  assumes "quantized_grid H W 16 g" "row < H" "col < W"
  shows "CHR 0x0A \<notin> set (spec_command a H (map fst (PALETTES (blocktype a))) g row col)"
  unfolding spec_command_def
  using spec_command_block_clean [OF assms, of a]
  by (intro build_setblock_cmd_no_newline) blast

lemma spec_command_fields:
  assumes "quantized_grid H W 16 g" "row < H" "col < W"
  shows "split_on (CHR '' '') (spec_command a H (map fst (PALETTES (blocktype a))) g row col) =
    [''setblock'', offset_token (startx a + int col), str_int (starty a),
     offset_token (startz a + (if flipy a then int row else int H - 1 - int row)),
     ''minecraft:'' @ map fst (PALETTES (blocktype a)) ! nat (sint (g ! row ! col))
        @ ''_'' @ blocktype_name (blocktype a),
     ''replace'']"
  unfolding spec_command_def
  using spec_command_block_clean [OF assms, of a]
  by (intro build_setblock_cmd_fields) blast

text \<open>
  C5. For a quantized grid of \<open>H\<close> rows and \<open>W\<close> columns with \<open>W \<sdot> H\<close> within the
  command limit, the emitter returns exactly \<open>W \<sdot> H\<close> commands, the command of cell
  \<open>(row, col)\<close> at position \<open>row \<sdot> W + col\<close>; \<^verbatim>\<open>make_mcfunction\<close> makes the content of the
  output file, whatever it was before, these commands in that order, each followed by a
  newline, so that the lines of the file are the commands.
\<close>

theorem commands_row_major:
  assumes "quantized_grid H W 16 g" and "int (W * H) \<le> max_commands a"
  shows "\<exists>cmds. build_commands a H W g (map fst (PALETTES (blocktype a))) = Inr cmds
    \<and> length cmds = W * H
    \<and> (\<forall>row < H. \<forall>col < W.
          cmds ! (row * W + col) = spec_command a H (map fst (PALETTES (blocktype a))) g row col)
    \<and> files (make_mcfunction cmds path wd) path
         = Some (Text (concat (map (\<lambda>cmd. cmd @ [CHR 0x0A]) cmds)))
    \<and> split_on (CHR 0x0A) (concat (map (\<lambda>cmd. cmd @ [CHR 0x0A]) cmds)) = cmds @ ['''']"
proof -
  define names where "names = map fst (PALETTES (blocktype a))"
  define cmds where "cmds = spec_commands a H W names g"
  have g: "quantized_grid H W (length names) g"
    using assms(1) by (simp add: names_def length_PALETTES)
  have r: "build_commands a H W g names = Inr cmds"
    unfolding cmds_def using g assms(2) by (rule build_commands_under_limit)
  have l: "length cmds = W * H"
    by (simp add: cmds_def length_spec_commands mult.commute)
  have n: "cmds ! (row * W + col) = spec_command a H names g row col"
    if "row < H" "col < W" for row col
    unfolding cmds_def using that by (rule spec_commands_nth)
  have f: "files (make_mcfunction cmds path wd) path
         = Some (Text (concat (map (\<lambda>cmd. cmd @ [CHR 0x0A]) cmds)))"
    by (simp add: make_mcfunction_def)
  have "\<forall>c \<in> set cmds. CHR 0x0A \<notin> set c"
  proof
    fix c assume "c \<in> set cmds"
    then obtain row col where "row < H" "col < W" "c = spec_command a H names g row col"
      unfolding cmds_def by (rule in_spec_commands)
    with spec_command_no_newline [OF assms(1), of row col a]
    show "CHR 0x0A \<notin> set c" by (simp add: names_def)
  qed
  then have s: "split_on (CHR 0x0A) (concat (map (\<lambda>cmd. cmd @ [CHR 0x0A]) cmds)) = cmds @ ['''']"
    by (rule split_lines)
  from r l n f s show ?thesis unfolding names_def by blast
qed

theorem commands_row_major_witness:
  "quantized_grid 1 2 16 example_grid \<and> int (2 * 1) \<le> max_commands example_args
   \<and> (\<exists>cmds. build_commands example_args 1 2 example_grid (map fst (PALETTES (blocktype example_args)))
          = Inr cmds
        \<and> length cmds = 2 * 1
        \<and> files (make_mcfunction cmds ''pixelart.mcfunction'' empty_world) ''pixelart.mcfunction''
            = Some (Text (concat (map (\<lambda>cmd. cmd @ [CHR 0x0A]) cmds))))"
proof -
  have g: "quantized_grid 1 2 16 example_grid"
    by (simp add: quantized_grid_def example_grid_def)
  have m: "int (2 * 1) \<le> max_commands example_args"
    by (simp add: example_args_def)
  from commands_row_major [OF g m, of "''pixelart.mcfunction''" empty_world] g m
  show ?thesis by blast
qed

lemma spec_commands_flat_nth:
  assumes "i < H * W"
  shows "spec_commands a H W names g ! i = spec_command a H names g (i div W) (i mod W)
    \<and> i div W < H \<and> i mod W < W"
proof -
  have W: "0 < W" using assms by (cases W) simp_all
  have "i div W < H" using assms W by (simp add: less_mult_imp_div_less)
  moreover have "i mod W < W" using W by simp
  moreover have "spec_commands a H W names g ! i = spec_command a H names g (i div W) (i mod W)"
    using assms by (simp add: spec_commands_def concat_rows_flat)
  ultimately show ?thesis by simp
qed

text \<open>
  C10. For a quantized grid and fixed start offsets, the run with \<^verbatim>\<open>--flipy\<close> toggled
  ends the same way: both abort with the same error, or both return lists of the same
  length in which the commands at each position have the same six fields except for the
  fourth, the depth token: the horizontal token, the height and the block identifier are
  equal.
\<close>

theorem flipy_changes_depth_only:
  assumes "quantized_grid H W 16 g"
  shows "(\<exists>e. build_commands a H W g (map fst (PALETTES (blocktype a))) = Inl e
            \<and> build_commands (a\<lparr>flipy := \<not> flipy a\<rparr>) H W g (map fst (PALETTES (blocktype a))) = Inl e)
    \<or> (\<exists>cs cs'. build_commands a H W g (map fst (PALETTES (blocktype a))) = Inr cs
            \<and> build_commands (a\<lparr>flipy := \<not> flipy a\<rparr>) H W g (map fst (PALETTES (blocktype a))) = Inr cs'
            \<and> length cs = length cs'
            \<and> (\<forall>i < length cs. \<exists>x y z z' b.
                  split_on (CHR '' '') (cs ! i) = [''setblock'', x, y, z, b, ''replace'']
                  \<and> split_on (CHR '' '') (cs' ! i) = [''setblock'', x, y, z', b, ''replace'']))"
proof -
  define a' where "a' = a\<lparr>flipy := \<not> flipy a\<rparr>"
  define names where "names = map fst (PALETTES (blocktype a))"
  define cs where "cs = spec_commands a H W names g"
  define cs' where "cs' = spec_commands a' H W names g"
  have bt: "blocktype a' = blocktype a" by (simp add: a'_def)
  have g: "quantized_grid H W (length names) g"
    using assms by (simp add: names_def length_PALETTES)
  have l: "length cs = H * W" "length cs' = H * W"
    by (simp_all add: cs_def cs'_def length_spec_commands)
  have fields: "\<exists>x y z z' b.
      split_on (CHR '' '') (cs ! i) = [''setblock'', x, y, z, b, ''replace'']
      \<and> split_on (CHR '' '') (cs' ! i) = [''setblock'', x, y, z', b, ''replace'']"
    if "i < length cs" for i
  proof -
    from that have i: "i < H * W" by (simp add: l)
    from spec_commands_flat_nth [OF i, of a names g]
    have c: "cs ! i = spec_command a H names g (i div W) (i mod W)"
      and row: "i div W < H" and col: "i mod W < W"
      by (simp_all add: cs_def)
    from spec_commands_flat_nth [OF i, of a' names g]
    have c': "cs' ! i = spec_command a' H names g (i div W) (i mod W)"
      by (simp add: cs'_def)
    have f: "split_on (CHR '' '') (cs ! i) =
      [''setblock'', offset_token (startx a + int (i mod W)), str_int (starty a),
       offset_token (startz a + (if flipy a then int (i div W) else int H - 1 - int (i div W))),
       ''minecraft:'' @ names ! nat (sint (g ! (i div W) ! (i mod W)))
          @ ''_'' @ blocktype_name (blocktype a),
       ''replace'']"
      unfolding c names_def using assms row col by (rule spec_command_fields)
    have "split_on (CHR '' '') (cs' ! i) =
      [''setblock'', offset_token (startx a' + int (i mod W)), str_int (starty a'),
       offset_token (startz a' + (if flipy a' then int (i div W) else int H - 1 - int (i div W))),
       ''minecraft:'' @ map fst (PALETTES (blocktype a')) ! nat (sint (g ! (i div W) ! (i mod W)))
          @ ''_'' @ blocktype_name (blocktype a'),
       ''replace'']"
      unfolding c' names_def bt [symmetric] using assms row col by (rule spec_command_fields)
    then have f': "split_on (CHR '' '') (cs' ! i) =
      [''setblock'', offset_token (startx a + int (i mod W)), str_int (starty a),
       offset_token (startz a + (if \<not> flipy a then int (i div W) else int H - 1 - int (i div W))),
       ''minecraft:'' @ names ! nat (sint (g ! (i div W) ! (i mod W)))
          @ ''_'' @ blocktype_name (blocktype a),
       ''replace'']"
      by (simp add: a'_def names_def)
    from f f' show ?thesis by blast
  qed
  have r: "build_commands a H W g names =
    (if cs \<noteq> [] \<and> max_commands a < int (length cs)
     then Inl (SystemExit (limit_message (max_commands a))) else Inr cs)"
    unfolding cs_def using g by (rule build_commands_valid)
  have "build_commands a' H W g names =
    (if cs' \<noteq> [] \<and> max_commands a' < int (length cs')
     then Inl (SystemExit (limit_message (max_commands a'))) else Inr cs')"
    unfolding cs'_def using g by (rule build_commands_valid)
  moreover have "cs' \<noteq> [] \<longleftrightarrow> cs \<noteq> []"
    using l by (metis length_0_conv)
  ultimately have r': "build_commands a' H W g names =
    (if cs \<noteq> [] \<and> max_commands a < int (length cs)
     then Inl (SystemExit (limit_message (max_commands a))) else Inr cs')"
    by (simp add: l a'_def)
  show ?thesis
  proof (cases "cs \<noteq> [] \<and> max_commands a < int (length cs)")
    case True
    with r r' have "build_commands a H W g names = Inl (SystemExit (limit_message (max_commands a)))"
      "build_commands a' H W g names = Inl (SystemExit (limit_message (max_commands a)))"
      by simp_all
    then show ?thesis unfolding a'_def names_def by blast
  next
    case False
    with r r' have "build_commands a H W g names = Inr cs" "build_commands a' H W g names = Inr cs'"
      by simp_all
    moreover have "length cs = length cs'" by (simp add: l)
    ultimately show ?thesis using fields unfolding a'_def names_def by blast
  qed
qed

theorem flipy_changes_depth_only_witness:
  "quantized_grid 2 1 16 example_column
   \<and> build_commands example_args 2 1 example_column (map fst (PALETTES (blocktype example_args)))
       = Inr [''setblock ~ 64 ~1 minecraft:white_concrete replace'',
              ''setblock ~ 64 ~ minecraft:black_concrete replace'']
   \<and> build_commands (example_args\<lparr>flipy := \<not> flipy example_args\<rparr>) 2 1 example_column
         (map fst (PALETTES (blocktype example_args)))
       = Inr [''setblock ~ 64 ~ minecraft:white_concrete replace'',
              ''setblock ~ 64 ~1 minecraft:black_concrete replace'']
   \<and> ((\<exists>e. build_commands example_args 2 1 example_column
                (map fst (PALETTES (blocktype example_args))) = Inl e
            \<and> build_commands (example_args\<lparr>flipy := \<not> flipy example_args\<rparr>) 2 1 example_column
                (map fst (PALETTES (blocktype example_args))) = Inl e)
       \<or> (\<exists>cs cs'. build_commands example_args 2 1 example_column
                (map fst (PALETTES (blocktype example_args))) = Inr cs
            \<and> build_commands (example_args\<lparr>flipy := \<not> flipy example_args\<rparr>) 2 1 example_column
                (map fst (PALETTES (blocktype example_args))) = Inr cs'
            \<and> length cs = length cs'
            \<and> (\<forall>i < length cs. \<exists>x y z z' b.
                  split_on (CHR '' '') (cs ! i) = [''setblock'', x, y, z, b, ''replace'']
                  \<and> split_on (CHR '' '') (cs' ! i) = [''setblock'', x, y, z', b, ''replace''])))"
proof -
  have g: "quantized_grid 2 1 16 example_column"
    by (simp add: quantized_grid_def example_column_def)
  have n: "build_commands example_args 2 1 example_column (map fst (PALETTES (blocktype example_args)))
       = Inr [''setblock ~ 64 ~1 minecraft:white_concrete replace'',
              ''setblock ~ 64 ~ minecraft:black_concrete replace'']"
    by code_simp
  have f: "build_commands (example_args\<lparr>flipy := \<not> flipy example_args\<rparr>) 2 1 example_column
         (map fst (PALETTES (blocktype example_args)))
       = Inr [''setblock ~ 64 ~ minecraft:white_concrete replace'',
              ''setblock ~ 64 ~1 minecraft:black_concrete replace'']"
    by code_simp
  from flipy_changes_depth_only [OF g, of example_args] g n f show ?thesis by blast
qed

section \<open>The quantizer loop is the sequential scan\<close>

lemma first_min_unique:
  fixes d :: "nat \<Rightarrow> int"
  assumes "i < n" "\<forall>j < n. d i \<le> d j" "\<forall>j < i. d i < d j"
    and "k < n" "\<forall>j < n. d k \<le> d j" "\<forall>j < k. d k < d j"
  shows "i = k"
proof (rule ccontr)
  assume "i \<noteq> k"
  then consider "i < k" | "k < i" by linarith
  then show False
  proof cases
    case 1
    with assms(6) have "d k < d i" by blast
    moreover from assms(1,5) have "d k \<le> d i" by blast
    moreover from assms(2,4) have "d i \<le> d k" by blast
    ultimately show False by simp
  next
    case 2
    with assms(3) have "d i < d k" by blast
    moreover from assms(1,5) have "d k \<le> d i" by blast
    ultimately show False by simp
  qed
qed

lemma scan_from_first_min:
  assumes "best < length pre" "bd = sqdist rgb (pre ! best)"
    and "\<forall>j < length pre. bd \<le> sqdist rgb (pre ! j)"
    and "\<forall>j < best. bd < sqdist rgb (pre ! j)"
  shows "scan_from rgb (length pre) best bd cs < length (pre @ cs)
    \<and> (\<forall>j < length (pre @ cs).
          sqdist rgb ((pre @ cs) ! scan_from rgb (length pre) best bd cs) \<le> sqdist rgb ((pre @ cs) ! j))
    \<and> (\<forall>j < scan_from rgb (length pre) best bd cs.
          sqdist rgb ((pre @ cs) ! scan_from rgb (length pre) best bd cs) < sqdist rgb ((pre @ cs) ! j))"
  using assms
proof (induction cs arbitrary: pre best bd)
  case Nil
  then show ?case by simp
next
  case (Cons c cs)
  have app: "pre @ c # cs = (pre @ [c]) @ cs" by simp
  have len: "Suc (length pre) = length (pre @ [c])" by simp
  show ?case
  proof (cases "sqdist rgb c < bd")
    case True
    have 1: "length pre < length (pre @ [c])" by simp
    have 2: "sqdist rgb c = sqdist rgb ((pre @ [c]) ! length pre)" by simp
    have 3: "\<forall>j < length (pre @ [c]). sqdist rgb c \<le> sqdist rgb ((pre @ [c]) ! j)"
    proof (intro allI impI)
      fix j assume "j < length (pre @ [c])"
      then consider "j < length pre" | "j = length pre" by fastforce
      then show "sqdist rgb c \<le> sqdist rgb ((pre @ [c]) ! j)"
      proof cases
        case 1
        with Cons.prems(3) have "bd \<le> sqdist rgb (pre ! j)" by blast
        with True 1 show ?thesis by (simp add: nth_append)
      next
        case 2
        then show ?thesis by simp
      qed
    qed
    have 4: "\<forall>j < length pre. sqdist rgb c < sqdist rgb ((pre @ [c]) ! j)"
    proof (intro allI impI)
      fix j assume j: "j < length pre"
      with Cons.prems(3) have "bd \<le> sqdist rgb (pre ! j)" by blast
      with True j show "sqdist rgb c < sqdist rgb ((pre @ [c]) ! j)" by (simp add: nth_append)
    qed
    have s: "scan_from rgb (length pre) best bd (c # cs)
      = scan_from rgb (length (pre @ [c])) (length pre) (sqdist rgb c) cs"
      using True by simp
    from Cons.IH [OF 1 2 3 4] show ?thesis
      unfolding s by simp
  next
    case False
    have 1: "best < length (pre @ [c])" using Cons.prems(1) by simp
    have 2: "bd = sqdist rgb ((pre @ [c]) ! best)"
      using Cons.prems(1,2) by (simp add: nth_append)
    have 3: "\<forall>j < length (pre @ [c]). bd \<le> sqdist rgb ((pre @ [c]) ! j)"
    proof (intro allI impI)
      fix j assume "j < length (pre @ [c])"
      then consider "j < length pre" | "j = length pre" by fastforce
      then show "bd \<le> sqdist rgb ((pre @ [c]) ! j)"
      proof cases
        case 1
        with Cons.prems(3) show ?thesis by (simp add: nth_append)
      next
        case 2
        with False show ?thesis by simp
      qed
    qed
    have 4: "\<forall>j < best. bd < sqdist rgb ((pre @ [c]) ! j)"
      using Cons.prems(1,4) by (simp add: nth_append)
    have s: "scan_from rgb (length pre) best bd (c # cs)
      = scan_from rgb (length (pre @ [c])) best bd cs"
      using False by simp
    from Cons.IH [OF 1 2 3 4] show ?thesis
      unfolding s by simp
  qed
qed

lemma nearest_color_scan:
  "nearest_color rgb (np_array_int16 (map rgb_ints (c # cs)))
    = Inr (scan_from rgb 1 0 (sqdist rgb c) cs)"
proof -
  define pal where "pal = c # cs"
  have ne: "pal \<noteq> []" by (simp add: pal_def)
  from nearest_color_first_min [OF ne, of rgb] obtain i where
    r: "nearest_color rgb (np_array_int16 (map rgb_ints pal)) = Inr i" and l: "i < length pal"
    and le: "\<forall>j < length pal. sqdist rgb (pal ! i) \<le> sqdist rgb (pal ! j)"
    and lt: "\<forall>j < i. sqdist rgb (pal ! i) < sqdist rgb (pal ! j)"
    by blast
  define k where "k = scan_from rgb 1 0 (sqdist rgb c) cs"
  have "scan_from rgb (length [c]) 0 (sqdist rgb c) cs < length ([c] @ cs)
    \<and> (\<forall>j < length ([c] @ cs).
          sqdist rgb (([c] @ cs) ! scan_from rgb (length [c]) 0 (sqdist rgb c) cs)
            \<le> sqdist rgb (([c] @ cs) ! j))
    \<and> (\<forall>j < scan_from rgb (length [c]) 0 (sqdist rgb c) cs.
          sqdist rgb (([c] @ cs) ! scan_from rgb (length [c]) 0 (sqdist rgb c) cs)
            < sqdist rgb (([c] @ cs) ! j))"
    by (rule scan_from_first_min) simp_all
  then have kl: "k < length pal"
    and kle: "\<forall>j < length pal. sqdist rgb (pal ! k) \<le> sqdist rgb (pal ! j)"
    and klt: "\<forall>j < k. sqdist rgb (pal ! k) < sqdist rgb (pal ! j)"
    by (simp_all add: k_def pal_def)
  have "i = k"
    using l le lt kl kle klt by (rule first_min_unique [where d = "\<lambda>j. sqdist rgb (pal ! j)"])
  with r show ?thesis by (simp add: pal_def k_def)
qed

lemma for_loop_snoc:
  "for_loop (xs @ [x]) body s =
    (case for_loop xs body s of Inl e \<Rightarrow> Inl e | Inr s' \<Rightarrow> body x s')"
  by (induction xs arbitrary: s) (simp_all split: sum.splits)

lemma fill_row:
  assumes "y < length m" "k \<le> length (m ! y)"
  shows "for_loop [0..<k] (\<lambda>x m. Inr (m[y := (m ! y)[x := v x]])) m
    = Inr (m[y := map v [0..<k] @ drop k (m ! y)])"
  using assms(2)
proof (induction k)
  case 0
  show ?case by simp
next
  case (Suc k)
  then have k: "k < length (m ! y)" by simp
  have ih: "for_loop [0..<k] (\<lambda>x m. Inr (m[y := (m ! y)[x := v x]])) m
    = Inr (m[y := map v [0..<k] @ drop k (m ! y)])"
    using Suc by simp
  have d: "drop k (m ! y) = (m ! y) ! k # drop (Suc k) (m ! y)"
    using k by (simp add: Cons_nth_drop_Suc)
  have "(map v [0..<k] @ drop k (m ! y))[k := v k] = map v [0..<k] @ (drop k (m ! y))[0 := v k]"
    by (simp add: list_update_append)
  also have "\<dots> = map v [0..<k] @ v k # drop (Suc k) (m ! y)"
    by (subst d) simp
  also have "\<dots> = map v [0..<Suc k] @ drop (Suc k) (m ! y)"
    by simp
  finally have row: "(map v [0..<k] @ drop k (m ! y))[k := v k]
    = map v [0..<Suc k] @ drop (Suc k) (m ! y)" .
  show ?case
    using assms(1) by (simp add: for_loop_snoc ih row del: upt_Suc add: upt_Suc_append)
qed

lemma fill_grid:
  assumes "k \<le> H"
  shows "for_loop [0..<k]
      (\<lambda>y m. for_loop [0..<W] (\<lambda>x m. Inr (m[y := (m ! y)[x := v y x]])) m)
      (replicate H (replicate W z))
    = Inr (map (\<lambda>y. map (v y) [0..<W]) [0..<k] @ replicate (H - k) (replicate W z))"
  using assms
proof (induction k)
  case 0
  show ?case by simp
next
  case (Suc k)
  define rows where "rows = map (\<lambda>y. map (v y) [0..<W]) [0..<k]"
  define m1 where "m1 = rows @ replicate (H - k) (replicate W z)"
  have lr: "length rows = k" by (simp add: rows_def)
  have k: "k < H" using Suc.prems by simp
  then have rest: "replicate (H - k) (replicate W z)
    = replicate W z # replicate (H - Suc k) (replicate W z)"
    by (cases "H - k") (simp_all add: Suc_diff_Suc)
  have m1k: "m1 ! k = replicate W z"
    by (simp add: m1_def nth_append lr rest)
  have l1: "k < length m1" using k by (simp add: m1_def lr)
  have w: "W \<le> length (m1 ! k)" by (simp add: m1k)
  have ih: "for_loop [0..<k]
      (\<lambda>y m. for_loop [0..<W] (\<lambda>x m. Inr (m[y := (m ! y)[x := v y x]])) m)
      (replicate H (replicate W z)) = Inr m1"
    unfolding m1_def rows_def using Suc by simp
  have "for_loop [0..<W] (\<lambda>x m. Inr (m[k := (m ! k)[x := v k x]])) m1
    = Inr (m1[k := map (v k) [0..<W] @ drop W (m1 ! k)])"
    using l1 w by (rule fill_row)
  also have "m1[k := map (v k) [0..<W] @ drop W (m1 ! k)]
    = rows @ map (v k) [0..<W] # replicate (H - Suc k) (replicate W z)"
    by (simp add: m1k) (simp add: m1_def list_update_append lr rest)
  finally have step: "for_loop [0..<W] (\<lambda>x m. Inr (m[k := (m ! k)[x := v k x]])) m1
    = Inr (rows @ map (v k) [0..<W] # replicate (H - Suc k) (replicate W z))" .
  have "map (\<lambda>y. map (v y) [0..<W]) [0..<Suc k] = rows @ [map (v k) [0..<W]]"
    by (simp add: rows_def)
  then show ?case
    by (simp add: for_loop_snoc ih step del: upt_Suc add: upt_Suc_append)
qed

lemma quantize_total:
  assumes "\<And>rgb. nearest_color rgb pc = Inr (f rgb)"
  shows "quantize pixels H W pc
    = Inr (map (\<lambda>y. map (\<lambda>x. word_of_nat (f (pixels ! y ! x))) [0..<W]) [0..<H])"
proof -
  have "quantize pixels H W pc = for_loop [0..<H]
      (\<lambda>y m. for_loop [0..<W]
         (\<lambda>x m. Inr (m[y := (m ! y)[x := word_of_nat (f (pixels ! y ! x))]])) m)
      (replicate H (replicate W 0))"
    by (simp add: quantize_def assms Let_def)
  also have "\<dots> = Inr (map (\<lambda>y. map (\<lambda>x. word_of_nat (f (pixels ! y ! x))) [0..<W]) [0..<H]
      @ replicate (H - H) (replicate W 0))"
    by (rule fill_grid) simp
  finally show ?thesis by simp
qed

lemma map_grid_nth:
  assumes "length pixels = H" "\<forall>row \<in> set pixels. length row = W"
  shows "map (\<lambda>y. map (\<lambda>x. h (pixels ! y ! x)) [0..<W]) [0..<H] = map (map h) pixels"
proof (rule nth_equalityI)
  show "length (map (\<lambda>y. map (\<lambda>x. h (pixels ! y ! x)) [0..<W]) [0..<H]) = length (map (map h) pixels)"
    using assms(1) by simp
next
  fix y assume "y < length (map (\<lambda>y. map (\<lambda>x. h (pixels ! y ! x)) [0..<W]) [0..<H])"
  then have y: "y < length pixels" using assms(1) by simp
  then have "length (pixels ! y) = W" using assms(2) by simp
  then have "map (\<lambda>x. h (pixels ! y ! x)) [0..<W] = map h (pixels ! y)"
    by (intro nth_equalityI) simp_all
  with y assms(1) show "map (\<lambda>y. map (\<lambda>x. h (pixels ! y ! x)) [0..<W]) [0..<H] ! y
    = map (map h) pixels ! y" by simp
qed

text \<open>
  C9. The quantizer is a function of the pixel grid and the palette: on every grid of
  \<open>H\<close> rows of \<open>W\<close> pixels and every non-empty palette, the two nested loops of
  \<^verbatim>\<open>main\<close> return the grid in which each pixel is replaced by the index the sequential
  scan finds, the scan that reads the palette in order and keeps the first minimum. Two
  runs on the same grid and palette therefore give the same index grid, and the entry
  that wins among equidistant ones is the first.
\<close>

theorem quantize_sequential:
  assumes "length pixels = H" and "\<forall>row \<in> set pixels. length row = W"
  shows "quantize pixels H W (np_array_int16 (map rgb_ints (c # cs)))
    = Inr (map (map (\<lambda>rgb. word_of_nat (scan_from rgb 1 0 (sqdist rgb c) cs))) pixels)
    \<and> (\<forall>rgb. sequential_scan rgb (c # cs) = Some (scan_from rgb 1 0 (sqdist rgb c) cs))"
proof -
  have "quantize pixels H W (np_array_int16 (map rgb_ints (c # cs)))
    = Inr (map (\<lambda>y. map (\<lambda>x. word_of_nat (scan_from (pixels ! y ! x) 1 0 (sqdist (pixels ! y ! x) c) cs))
        [0..<W]) [0..<H])"
    by (rule quantize_total) (rule nearest_color_scan)
  also have "map (\<lambda>y. map (\<lambda>x. word_of_nat (scan_from (pixels ! y ! x) 1 0 (sqdist (pixels ! y ! x) c) cs))
        [0..<W]) [0..<H]
    = map (map (\<lambda>rgb. word_of_nat (scan_from rgb 1 0 (sqdist rgb c) cs))) pixels"
    using assms by (rule map_grid_nth)
  finally show ?thesis by simp
qed

theorem quantize_sequential_witness:
  "length [[(255, 255, 255), (20, 21, 25)]] = (1::nat)
   \<and> list_all (\<lambda>row. length row = 2) [[(255, 255, 255), (20, 21, 25) :: rgb8]]
   \<and> quantize [[(255, 255, 255), (20, 21, 25)]] 1 2
        (np_array_int16 (map rgb_ints [(209, 213, 214), (20, 21, 25), (20, 21, 25)]))
      = Inr [[0, 1]]"
proof -
  have l: "length [[(255, 255, 255), (20, 21, 25) :: rgb8]] = (1::nat)" by simp
  have w: "\<forall>row \<in> set [[(255, 255, 255), (20, 21, 25) :: rgb8]]. length row = 2" by simp
  from quantize_sequential [OF l w, of "(209, 213, 214)" "[(20, 21, 25), (20, 21, 25)]"] l w
  show ?thesis by (simp add: sqdist_def)
qed

section \<open>The normalizer\<close>

lemma py_round_cases:
  fixes x :: rat
  defines "d \<equiv> x - of_int \<lfloor>x\<rfloor>"
  shows "0 \<le> d \<and> d < 1
    \<and> (d < 1 / 2 \<longrightarrow> py_round x = \<lfloor>x\<rfloor>)
    \<and> (1 / 2 < d \<longrightarrow> py_round x = \<lfloor>x\<rfloor> + 1)
    \<and> (d = 1 / 2 \<longrightarrow> py_round x = (if even \<lfloor>x\<rfloor> then \<lfloor>x\<rfloor> else \<lfloor>x\<rfloor> + 1))"
proof -
  have "of_int \<lfloor>x\<rfloor> \<le> x" "x < of_int \<lfloor>x\<rfloor> + 1" by linarith+
  then have "0 \<le> d" "d < 1" by (simp_all add: d_def)
  then show ?thesis by (auto simp: py_round_def d_def Let_def)
qed

lemma py_round_nearest: "\<bar>of_int (py_round x) - x\<bar> \<le> 1 / 2"
proof -
  define d where "d = x - of_int \<lfloor>x\<rfloor>"
  have x: "x = of_int \<lfloor>x\<rfloor> + d" by (simp add: d_def)
  from py_round_cases [of x] have c: "0 \<le> d" "d < 1"
    "d < 1 / 2 \<Longrightarrow> py_round x = \<lfloor>x\<rfloor>"
    "1 / 2 < d \<Longrightarrow> py_round x = \<lfloor>x\<rfloor> + 1"
    "d = 1 / 2 \<Longrightarrow> py_round x = \<lfloor>x\<rfloor> \<or> py_round x = \<lfloor>x\<rfloor> + 1"
    unfolding d_def by (simp_all split: if_splits)
  consider "d < 1 / 2" | "1 / 2 < d" | "d = 1 / 2" by linarith
  then show ?thesis
  proof cases
    case 1
    have "of_int (py_round x) - x = - d" by (subst (2) x) (simp add: c(3) [OF 1])
    with 1 c show ?thesis by simp
  next
    case 2
    have "of_int (py_round x) - x = 1 - d" by (subst (2) x) (simp add: c(4) [OF 2])
    with 2 c show ?thesis by simp
  next
    case 3
    from c(5) [OF 3] have "of_int (py_round x) - x = - d \<or> of_int (py_round x) - x = 1 - d"
      by (subst (2) x, subst (4) x) auto
    with 3 show ?thesis by auto
  qed
qed

lemma py_round_tie_even:
  assumes "\<bar>of_int (py_round x) - x\<bar> = 1 / 2"
  shows "even (py_round x)"
proof -
  define d where "d = x - of_int \<lfloor>x\<rfloor>"
  have x: "x = of_int \<lfloor>x\<rfloor> + d" by (simp add: d_def)
  from py_round_cases [of x] have c: "0 \<le> d" "d < 1"
    "d < 1 / 2 \<Longrightarrow> py_round x = \<lfloor>x\<rfloor>"
    "1 / 2 < d \<Longrightarrow> py_round x = \<lfloor>x\<rfloor> + 1"
    "d = 1 / 2 \<Longrightarrow> py_round x = (if even \<lfloor>x\<rfloor> then \<lfloor>x\<rfloor> else \<lfloor>x\<rfloor> + 1)"
    unfolding d_def by simp_all
  consider "d < 1 / 2" | "1 / 2 < d" | "d = 1 / 2" by linarith
  then show ?thesis
  proof cases
    case 1
    have "of_int (py_round x) - x = - d" by (subst (2) x) (simp add: c(3) [OF 1])
    with c have "\<bar>of_int (py_round x) - x\<bar> = d" by linarith
    with assms 1 have False by linarith
    then show ?thesis ..
  next
    case 2
    have "of_int (py_round x) - x = 1 - d" by (subst (2) x) (simp add: c(4) [OF 2])
    with c have "\<bar>of_int (py_round x) - x\<bar> = 1 - d" by linarith
    with assms 2 have False by linarith
    then show ?thesis ..
  next
    case 3
    from c(5) [OF 3] show ?thesis by (simp split: if_splits)
  qed
qed

lemma py_round_nonneg: "0 \<le> x \<Longrightarrow> 0 \<le> py_round x"
proof -
  assume "0 \<le> x"
  then have "0 \<le> \<lfloor>x\<rfloor>" by simp
  with py_round_cases [of x] show ?thesis
    by (cases "x - of_int \<lfloor>x\<rfloor> < 1 / 2"; cases "1 / 2 < x - of_int \<lfloor>x\<rfloor>")
      (auto split: if_splits)
qed

lemma py_round_quotient:
  assumes "0 < b"
  shows "py_round (of_int a / of_int b) =
    (if 2 * (a mod b) < b then a div b
     else if b < 2 * (a mod b) then a div b + 1
     else if even (a div b) then a div b else a div b + 1)"
proof -
  define x :: rat where "x = of_int a / of_int b"
  have f: "\<lfloor>x\<rfloor> = a div b" unfolding x_def by (rule floor_divide_of_int_eq)
  have b: "(0::rat) < of_int b" using assms by simp
  have "of_int a = of_int (a div b) * of_int b + (of_int (a mod b) :: rat)"
    by (metis div_mult_mod_eq of_int_add of_int_mult)
  then have e: "x = of_int (a div b) + of_int (a mod b) / of_int b"
    unfolding x_def using b by (simp add: field_simps)
  have d: "x - of_int \<lfloor>x\<rfloor> = of_int (a mod b) / of_int b"
    unfolding f using e by simp
  have lt: "x - of_int \<lfloor>x\<rfloor> < 1 / 2 \<longleftrightarrow> 2 * (a mod b) < b"
  proof -
    have "of_int (a mod b) / of_int b < (1 / 2 :: rat) \<longleftrightarrow> (of_int (2 * (a mod b)) :: rat) < of_int b"
      using b by (simp add: field_simps)
    also have "\<dots> \<longleftrightarrow> 2 * (a mod b) < b" by (rule of_int_less_iff)
    finally show ?thesis unfolding d .
  qed
  have gt: "1 / 2 < x - of_int \<lfloor>x\<rfloor> \<longleftrightarrow> b < 2 * (a mod b)"
  proof -
    have "(1 / 2 :: rat) < of_int (a mod b) / of_int b \<longleftrightarrow> (of_int b :: rat) < of_int (2 * (a mod b))"
      using b by (simp add: field_simps)
    also have "\<dots> \<longleftrightarrow> b < 2 * (a mod b)" by (rule of_int_less_iff)
    finally show ?thesis unfolding d .
  qed
  show ?thesis
    unfolding x_def [symmetric] py_round_def Let_def f lt [unfolded f] gt [unfolded f]
    by (rule refl)
qed

lemma py_round_low:
  assumes "of_int k \<le> z" "z < of_int k + 1 / 2"
  shows "py_round z = k"
proof -
  have f: "\<lfloor>z\<rfloor> = k" using assms by linarith
  have "z - of_int \<lfloor>z\<rfloor> < 1 / 2" unfolding f using assms by linarith
  with py_round_cases [of z] show ?thesis by (simp add: f)
qed

lemma py_round_high:
  assumes "of_int k + 1 / 2 < z" "z \<le> of_int k + 1"
  shows "py_round z = k + 1"
proof (cases "z = of_int k + 1")
  case True
  have "of_int (k + 1) \<le> z" "z < of_int (k + 1) + 1 / 2" using True by simp_all
  then show ?thesis by (rule py_round_low)
next
  case False
  with assms have f: "\<lfloor>z\<rfloor> = k" by linarith
  have "1 / 2 < z - of_int \<lfloor>z\<rfloor>" unfolding f using assms by linarith
  with py_round_cases [of z] show ?thesis by (simp add: f)
qed

lemma py_round_of_int: "py_round (of_int k) = k"
  by (rule py_round_low) simp_all

lemma py_round_ge:
  assumes "of_int j \<le> r"
  shows "j \<le> py_round r"
proof -
  from py_round_nearest [of r] have "r - 1 / 2 \<le> of_int (py_round r)" by linarith
  with assms have "(of_int j :: rat) - 1 < of_int (py_round r)" by linarith
  then have "(of_int (j - 1) :: rat) < of_int (py_round r)" by simp
  then have "j - 1 < py_round r" by (simp only: of_int_less_iff)
  then show ?thesis by simp
qed

lemma py_round_le:
  assumes "r \<le> of_int j"
  shows "py_round r \<le> j"
proof -
  from py_round_nearest [of r] have "of_int (py_round r) \<le> r + 1 / 2" by linarith
  with assms have "(of_int (py_round r) :: rat) < of_int j + 1" by linarith
  then have "(of_int (py_round r) :: rat) < of_int (j + 1)" by simp
  then have "py_round r < j + 1" by (simp only: of_int_less_iff)
  then show ?thesis by simp
qed

lemma py_round_less:
  assumes "r + 1 / 2 < of_int j"
  shows "py_round r < j"
proof -
  from py_round_nearest [of r] have "of_int (py_round r) \<le> r + 1 / 2" by linarith
  with assms have "(of_int (py_round r) :: rat) < of_int j" by linarith
  then show ?thesis by (simp only: of_int_less_iff)
qed

lemma py_round_greater:
  assumes "of_int j < r - 1 / 2"
  shows "j < py_round r"
proof -
  from py_round_nearest [of r] have "r - 1 / 2 \<le> of_int (py_round r)" by linarith
  with assms have "(of_int j :: rat) < of_int (py_round r)" by linarith
  then show ?thesis by (simp only: of_int_less_iff)
qed

lemma of_int_scale_mono:
  assumes "a \<le> b" "0 < u"
  shows "of_int a * u \<le> of_int b * (u::rat)"
proof -
  from assms(1) have "(of_int a :: rat) \<le> of_int b" by (simp only: of_int_le_iff)
  then show ?thesis using assms(2) by (intro mult_right_mono) simp_all
qed

lemma double_round_same:
  fixes n d :: int
  assumes d: "0 < d" and n: "n < 2 ^ 52"
    and x: "x = of_int n / of_int d"
    and e: "2 powi e \<le> x" "x < 2 powi (e + 1)"
  shows "py_round (double_of e x) = py_round x"
proof -
  define u :: rat where "u = 2 powi (e - 52)"
  define C :: int where "C = 2 ^ nat (51 - e)"
  define k where "k = \<lfloor>x\<rfloor>"
  define m where "m = py_round (x / u)"
  define y where "y = of_int m * u"
  have y: "double_of e x = y" by (simp add: double_of_def y_def m_def u_def)
  have upos: "0 < u" by (simp add: u_def)
  have dpos: "(0::rat) < of_int d" using d by simp
  have xpos: "0 < x"
  proof -
    have "(0::rat) < 2 powi e" by simp
    with e(1) show ?thesis by linarith
  qed
  have "x \<le> of_int n"
  proof -
    have "(1::rat) \<le> of_int d" using d by simp
    moreover have "(0::rat) \<le> of_int n" using xpos dpos x by (simp add: zero_less_divide_iff)
    ultimately have "of_int n / of_int d \<le> (of_int n :: rat) / 1"
      by (intro divide_left_mono) simp_all
    then show ?thesis by (simp add: x)
  qed
  moreover have "(of_int n :: rat) < 2 ^ 52"
    using n by (metis of_int_less_iff of_int_numeral of_int_power)
  ultimately have xlt: "x < 2 ^ 52" by linarith
  have e51: "e \<le> 51"
  proof (rule ccontr)
    assume "\<not> e \<le> 51"
    then have "52 \<le> e" by simp
    then have "(2::rat) powi 52 \<le> 2 powi e" by (intro power_int_increasing) simp_all
    with e(1) xlt show False by simp
  qed
  have Cu: "of_int C * u = 1 / 2"
  proof -
    have "(of_int C :: rat) = 2 powi (51 - e)"
      using e51 by (simp add: C_def power_int_def)
    then have "of_int C * u = 2 powi (51 - e) * 2 powi (e - 52)" by (simp add: u_def)
    also have "\<dots> = 2 powi ((51 - e) + (e - 52))"
      by (rule power_int_add [symmetric]) simp
    also have "(51 - e) + (e - 52) = - 1" by simp
    also have "(2::rat) powi (- 1) = 1 / 2" by (simp add: power_int_def)
    finally show ?thesis .
  qed
  have ud: "u < 1 / of_int d"
  proof -
    have "(2::rat) powi (e - 52) * 2 powi 52 = 2 powi ((e - 52) + 52)"
      by (rule power_int_add [symmetric]) simp
    moreover have "(2::rat) powi 52 = 2 ^ 52"
      by (metis power_int_numeral)
    ultimately have "u * 2 ^ 52 = 2 powi e" by (simp add: u_def)
    also have "\<dots> \<le> x" by (rule e(1))
    also have "x < 2 ^ 52 / of_int d"
      unfolding x using n dpos
      by (intro divide_strict_right_mono) (metis of_int_less_iff of_int_numeral of_int_power, simp)
    finally have "u * 2 ^ 52 < (1 / of_int d) * 2 ^ 52" by simp
    then show ?thesis by simp
  qed
  have k: "of_int k \<le> x" "x < of_int k + 1" unfolding k_def by linarith+
  have J0: "of_int (2 * k * C) * u = of_int k"
  proof -
    have "of_int (2 * k * C) * u = 2 * of_int k * (of_int C * u)" by simp
    then show ?thesis by (simp add: Cu)
  qed
  have J: "of_int (2 * k * C + C) * u = of_int k + 1 / 2"
  proof -
    have "of_int (2 * k * C + C) * u = of_int (2 * k * C) * u + of_int C * u"
      by (simp add: algebra_simps)
    then show ?thesis by (simp add: J0 Cu)
  qed
  have J2: "of_int (2 * k * C + 2 * C) * u = of_int k + 1"
  proof -
    have "of_int (2 * k * C + 2 * C) * u = of_int (2 * k * C) * u + 2 * (of_int C * u)"
      by (simp add: algebra_simps)
    then show ?thesis by (simp add: J0 Cu)
  qed
  have ge: "of_int j \<le> x / u \<longleftrightarrow> of_int j * u \<le> x" for j
    using upos by (simp add: pos_le_divide_eq)
  have le: "x / u \<le> of_int j \<longleftrightarrow> x \<le> of_int j * u" for j
    using upos by (simp add: pos_divide_le_eq)
  have m_lo: "2 * k * C \<le> m"
  proof -
    have "of_int (2 * k * C) \<le> x / u" unfolding ge J0 by (rule k(1))
    then show ?thesis unfolding m_def by (rule py_round_ge)
  qed
  have m_hi: "m \<le> 2 * k * C + 2 * C"
  proof -
    have "x / u \<le> of_int (2 * k * C + 2 * C)" unfolding le J2 using k(2) by (rule less_imp_le)
    then show ?thesis unfolding m_def by (rule py_round_le)
  qed
  have y_lo: "of_int k \<le> y"
  proof -
    have "of_int (2 * k * C) * u \<le> of_int m * u"
      using m_lo upos by (rule of_int_scale_mono)
    then show ?thesis by (simp only: J0 y_def)
  qed
  have y_hi: "y \<le> of_int k + 1"
  proof -
    have "of_int m * u \<le> of_int (2 * k * C + 2 * C) * u"
      using m_hi upos by (rule of_int_scale_mono)
    then show ?thesis by (simp only: J2 y_def)
  qed
  consider (low) "x < of_int k + 1 / 2" | (high) "of_int k + 1 / 2 < x" | (tie) "x = of_int k + 1 / 2"
    by linarith
  then show ?thesis
  proof cases
    case low
    have "of_int n / of_int d < (of_int (2 * k + 1) :: rat) / 2" using low by (simp add: x add_divide_distrib)
    then have "(of_int n :: rat) * 2 < of_int (2 * k + 1) * of_int d"
      using dpos by (simp add: field_simps)
    then have "(of_int (n * 2) :: rat) < of_int ((2 * k + 1) * d)" by simp
    then have "n * 2 < (2 * k + 1) * d" by (simp only: of_int_less_iff)
    then have "n * 2 + 1 \<le> (2 * k + 1) * d" by simp
    then have "(of_int (n * 2 + 1) :: rat) \<le> of_int ((2 * k + 1) * d)" by (simp only: of_int_le_iff)
    then have "(of_int n :: rat) * 2 + 1 \<le> (2 * of_int k + 1) * of_int d" by simp
    then have gap: "x + 1 / (2 * of_int d) \<le> of_int k + 1 / 2"
      unfolding x using dpos by (simp add: field_simps)
    have "(x / u + 1 / 2) * u = x + u / 2" using upos by (simp add: field_simps)
    also have "\<dots> < of_int k + 1 / 2" using gap ud by (simp add: field_simps) linarith?
    finally have "(x / u + 1 / 2) * u < of_int (2 * k * C + C) * u" by (simp only: J)
    then have "x / u + 1 / 2 < of_int (2 * k * C + C)"
      using upos by (simp only: mult_less_cancel_right_pos)
    then have "m < 2 * k * C + C" unfolding m_def by (rule py_round_less)
    then have "m \<le> 2 * k * C + C - 1" by simp
    then have "of_int m * u \<le> of_int (2 * k * C + C - 1) * u"
      using upos by (rule of_int_scale_mono)
    also have "of_int (2 * k * C + C - 1) * u = of_int (2 * k * C + C) * u - u"
      by (simp add: algebra_simps)
    also have "\<dots> < of_int k + 1 / 2" unfolding J using upos by simp
    finally have "y < of_int k + 1 / 2" by (simp only: y_def)
    with y_lo have "py_round y = k" by (rule py_round_low)
    moreover from k(1) low have "py_round x = k" by (rule py_round_low)
    ultimately show ?thesis by (simp add: y)
  next
    case high
    have "(of_int (2 * k + 1) :: rat) / 2 < of_int n / of_int d" using high by (simp add: x add_divide_distrib)
    then have "of_int (2 * k + 1) * of_int d < (of_int n :: rat) * 2"
      using dpos by (simp add: field_simps)
    then have "(of_int ((2 * k + 1) * d) :: rat) < of_int (n * 2)" by simp
    then have "(2 * k + 1) * d < n * 2" by (simp only: of_int_less_iff)
    then have "(2 * k + 1) * d + 1 \<le> n * 2" by simp
    then have "(of_int ((2 * k + 1) * d + 1) :: rat) \<le> of_int (n * 2)" by (simp only: of_int_le_iff)
    then have "(2 * of_int k + 1) * of_int d + 1 \<le> (of_int n :: rat) * 2" by simp
    then have "((2 * of_int k + 1) * of_int d + 1) / (2 * of_int d)
        \<le> ((of_int n :: rat) * 2) / (2 * of_int d)"
      using dpos by (intro divide_right_mono) simp_all
    moreover have "((2 * of_int k + 1) * of_int d + 1) / (2 * of_int d)
        = (of_int k :: rat) + 1 / 2 + 1 / (2 * of_int d)"
      using dpos by (simp add: field_simps)
    moreover have "((of_int n :: rat) * 2) / (2 * of_int d) = x"
      using dpos by (simp add: x)
    ultimately have gap: "of_int k + 1 / 2 + 1 / (2 * of_int d) \<le> x" by simp
    have "of_int (2 * k * C + C) * u = of_int k + 1 / 2" by (rule J)
    also have "\<dots> < x - u / 2" using gap ud by (simp add: field_simps) linarith?
    also have "\<dots> = (x / u - 1 / 2) * u" using upos by (simp add: field_simps)
    finally have "of_int (2 * k * C + C) < x / u - 1 / 2"
      using upos by (simp only: mult_less_cancel_right_pos)
    then have "2 * k * C + C < m" unfolding m_def by (rule py_round_greater)
    then have "2 * k * C + C + 1 \<le> m" by simp
    then have "of_int (2 * k * C + C + 1) * u \<le> of_int m * u"
      using upos by (rule of_int_scale_mono)
    moreover have "of_int (2 * k * C + C + 1) * u = of_int (2 * k * C + C) * u + u"
      by (simp add: algebra_simps)
    moreover have "of_int k + 1 / 2 < of_int (2 * k * C + C) * u + u" unfolding J using upos by simp
    ultimately have "of_int k + 1 / 2 < y" by (simp only: y_def)
    from this y_hi have "py_round y = k + 1" by (rule py_round_high)
    moreover from high k(2) have "py_round x = k + 1" by (intro py_round_high) simp_all
    ultimately show ?thesis by (simp add: y)
  next
    case tie
    have "x / u = of_int (2 * k * C + C)"
      unfolding tie J [symmetric] using upos by simp
    then have "m = 2 * k * C + C" unfolding m_def by (simp only: py_round_of_int)
    then have "y = x" unfolding y_def tie by (simp only: J)
    then show ?thesis by (simp add: y)
  qed
qed

lemma bit_length_bounds:
  "0 < n \<Longrightarrow> 2 ^ (bit_length n - 1) \<le> n \<and> n < 2 ^ bit_length n"
proof (induction n rule: bit_length.induct)
  case (1 n)
  have b: "bit_length n = Suc (bit_length (n div 2))"
    using "1.prems" by (subst bit_length.simps) simp
  show ?case
  proof (cases "n div 2 \<le> 0")
    case True
    then have "bit_length (n div 2) = 0" by (simp add: bit_length.simps)
    then have "bit_length n = 1" by (simp add: b)
    moreover from True "1.prems" have "n = 1" by linarith
    ultimately show ?thesis by simp
  next
    case False
    with "1.IH" "1.prems" have ih: "2 ^ (bit_length (n div 2) - 1) \<le> n div 2"
      "n div 2 < 2 ^ bit_length (n div 2)" by simp_all
    have pos: "0 < bit_length (n div 2)"
      using False by (subst bit_length.simps) simp
    then have "(2::int) ^ bit_length (n div 2) = 2 * 2 ^ (bit_length (n div 2) - 1)"
      by (cases "bit_length (n div 2)") simp_all
    with ih(1) have lo: "2 ^ bit_length (n div 2) \<le> n" by linarith
    from ih(2) have "n < 2 * 2 ^ bit_length (n div 2)" by linarith
    with lo show ?thesis by (simp add: b)
  qed
qed

lemma powi_nat_diff: "(2::rat) powi (int a - int b) = 2 ^ a / 2 ^ b"
proof -
  have "(2::rat) powi (int a - int b) = 2 powi int a / 2 powi int b"
    by (rule power_int_diff) simp
  then show ?thesis by (simp only: power_int_of_nat)
qed

lemma binade_bounds:
  assumes "0 < n" "0 < d"
  shows "2 powi (binade n d) \<le> (of_int n / of_int d :: rat)
    \<and> (of_int n / of_int d :: rat) < 2 powi (binade n d + 1)"
proof -
  define bn where "bn = bit_length n"
  define bd where "bd = bit_length d"
  define s where "s = int bn - int bd"
  define x :: rat where "x = of_int n / of_int d"
  have dpos: "(0::rat) < of_int d" using assms by simp
  from bit_length_bounds [OF assms(1)] have n: "2 ^ (bn - 1) \<le> n" "n < 2 ^ bn"
    by (simp_all add: bn_def)
  from bit_length_bounds [OF assms(2)] have d: "2 ^ (bd - 1) \<le> d" "d < 2 ^ bd"
    by (simp_all add: bd_def)
  have bn: "0 < bn" using n(2) assms(1) by (cases bn) simp_all
  have bd: "0 < bd" using d(2) assms(2) by (cases bd) simp_all
  have nr: "(2::rat) ^ (bn - 1) \<le> of_int n" "(of_int n :: rat) < 2 ^ bn"
    using n by (metis of_int_le_iff of_int_numeral of_int_power,
        metis of_int_less_iff of_int_numeral of_int_power)
  have dr: "(2::rat) ^ (bd - 1) \<le> of_int d" "(of_int d :: rat) < 2 ^ bd"
    using d by (metis of_int_le_iff of_int_numeral of_int_power,
        metis of_int_less_iff of_int_numeral of_int_power)
  have up: "x < 2 powi (s + 1)"
  proof -
    have "s + 1 = int bn - int (bd - 1)" using bd by (simp add: s_def)
    then have p: "(2::rat) powi (s + 1) = 2 ^ bn / 2 ^ (bd - 1)" by (simp only: powi_nat_diff)
    have "x < 2 ^ bn / of_int d"
      unfolding x_def using nr(2) dpos by (rule divide_strict_right_mono)
    also have "\<dots> \<le> 2 ^ bn / 2 ^ (bd - 1)"
      using dr(1) dpos by (intro divide_left_mono) simp_all
    finally show ?thesis by (simp only: p)
  qed
  have lo: "2 powi (s - 1) \<le> x"
  proof -
    have "s - 1 = int (bn - 1) - int bd" using bn by (simp add: s_def)
    then have p: "(2::rat) powi (s - 1) = 2 ^ (bn - 1) / 2 ^ bd" by (simp only: powi_nat_diff)
    have "(2::rat) ^ (bn - 1) / 2 ^ bd \<le> 2 ^ (bn - 1) / of_int d"
      using dr(2) dpos by (intro divide_left_mono) simp_all
    also have "\<dots> \<le> x"
      unfolding x_def using nr(1) dpos by (intro divide_right_mono) simp_all
    finally show ?thesis by (simp only: p)
  qed
  have b: "binade n d = (if of_int d * 2 powi s \<le> (of_int n :: rat) then s else s - 1)"
    by (simp add: binade_def s_def bn_def bd_def Let_def)
  have c: "of_int d * 2 powi s \<le> (of_int n :: rat) \<longleftrightarrow> 2 powi s \<le> x"
    unfolding x_def using dpos by (simp add: pos_le_divide_eq mult.commute)
  show ?thesis
  proof (cases "2 powi s \<le> x")
    case True
    then have "binade n d = s" by (simp add: b c)
    with True up show ?thesis by (simp add: x_def)
  next
    case False
    then have e: "binade n d = s - 1" by (simp add: b c)
    from False have "x < 2 powi s" by simp
    with lo show ?thesis by (simp add: e x_def)
  qed
qed

lemma true_divide_round:
  assumes "0 < d" "0 \<le> n" "n < 2 ^ 52"
  shows "\<exists>fq. true_divide n d = Inr fq \<and> py_round fq = py_round (of_int n / of_int d)"
proof (cases "n = 0")
  case True
  then show ?thesis using assms(1) by (simp add: true_divide_def)
next
  case False
  define x :: rat where "x = of_int n / of_int d"
  define e0 where "e0 = binade \<bar>n\<bar> \<bar>d\<bar>"
  define y where "y = double_of (max e0 (- 1022)) x"
  have npos: "0 < n" using False assms(2) by simp
  have abs: "\<bar>n\<bar> = n" "\<bar>d\<bar> = d" using npos assms(1) by simp_all
  have xpos: "0 < x" using npos assms(1) by (simp add: x_def)
  have ax: "\<bar>of_int n / of_int d :: rat\<bar> = x"
    using npos assms(1) by (simp add: x_def)
  have td: "true_divide n d = (if 2 powi 1024 \<le> y then Inl OverflowError else Inr y)"
  proof -
    define M :: rat where "M = 2 powi 1024"
    have "true_divide n d = (if M \<le> y then Inl OverflowError else Inr y)"
      unfolding true_divide_def M_def [symmetric] Let_def ax
      using False assms(1) npos by (simp add: y_def e0_def)
    then show ?thesis unfolding M_def .
  qed
  from binade_bounds [of n d] npos assms(1)
  have e0: "2 powi e0 \<le> x" "x < 2 powi (e0 + 1)"
    by (simp_all add: e0_def abs x_def)
  have "x \<le> of_int n"
  proof -
    have "(1::rat) \<le> of_int d" using assms(1) by simp
    then have "of_int n / of_int d \<le> (of_int n :: rat) / 1"
      using assms(2) by (intro divide_left_mono) simp_all
    then show ?thesis by (simp add: x_def)
  qed
  moreover have "(of_int n :: rat) < 2 ^ 52"
    using assms(3) by (metis of_int_less_iff of_int_numeral of_int_power)
  ultimately have xlt: "x < 2 ^ 52" by linarith
  have r: "py_round y = py_round x \<and> y < 2 powi 1024"
  proof (cases "- 1022 \<le> e0")
    case True
    then have m: "max e0 (- 1022) = e0" by simp
    have same: "py_round y = py_round x"
      unfolding y_def m using assms(1,3) x_def e0 by (rule double_round_same)
    from py_round_nearest [of y] have "y \<le> of_int (py_round x) + 1 / 2"
      unfolding same by linarith
    moreover from py_round_nearest [of x] have "of_int (py_round x) \<le> x + 1 / 2" by linarith
    ultimately have "y < 2 ^ 52 + 1" using xlt by linarith
    also have "(2::rat) ^ 52 + 1 \<le> 2 ^ 1024" by simp
    also have "(2::rat) ^ 1024 = 2 powi 1024" by (metis power_int_numeral)
    finally show ?thesis using same by simp
  next
    case False
    then have m: "max e0 (- 1022) = - 1022" by simp
    define u :: rat where "u = 2 powi (- 1074)"
    have upos: "0 < u" by (simp add: u_def)
    have yu: "y = of_int (py_round (x / u)) * u"
      by (simp add: y_def m double_of_def u_def)
    have "e0 + 1 \<le> - 1022" using False by simp
    then have "(2::rat) powi (e0 + 1) \<le> 2 powi (- 1022)"
      by (intro power_int_increasing) simp_all
    with e0(2) have xs: "x < 2 powi (- 1022)" by linarith
    have q: "(2::rat) powi (- 1022) = of_int (2 ^ 52) * u"
    proof -
      have "(2::rat) powi 52 * 2 powi (- 1074) = 2 powi (52 + (- 1074))"
        by (rule power_int_add [symmetric]) simp
      moreover have "(2::rat) powi 52 = of_int (2 ^ 52)" by (metis of_int_numeral of_int_power power_int_numeral)
      ultimately show ?thesis by (simp add: u_def)
    qed
    have "x / u \<le> of_int (2 ^ 52)"
      using xs upos unfolding q by (simp add: pos_divide_le_eq)
    then have mh: "py_round (x / u) \<le> 2 ^ 52" by (rule py_round_le)
    have "0 \<le> x / u" using xpos upos by simp
    then have ml: "0 \<le> py_round (x / u)" by (rule py_round_nonneg)
    have y0: "0 \<le> y" unfolding yu using ml upos by simp
    have "y \<le> of_int (2 ^ 52) * u"
      unfolding yu using mh upos by (rule of_int_scale_mono)
    then have y1: "y \<le> 2 powi (- 1022)" by (simp only: q)
    have small: "(2::rat) powi (- 1022) \<le> 2 powi (- 2)"
      by (intro power_int_increasing) simp_all
    have quarter: "(2::rat) powi (- 2) = 1 / 4" by (simp add: power_int_def power2_eq_square)
    have "py_round y = 0"
      using y0 y1 small quarter by (intro py_round_low) simp_all
    moreover have "py_round x = 0"
      using xpos xs small quarter by (intro py_round_low) simp_all
    moreover have "y < 2 powi 1024"
    proof -
      have "(1::rat) \<le> 2 powi 1024" by (rule one_le_power_int) simp_all
      with y1 small quarter show ?thesis by linarith
    qed
    ultimately show ?thesis by simp
  qed
  then show ?thesis by (simp add: td x_def)
qed

lemma normalize_Inr:
  assumes "normalize L a im = Inr im_small"
  shows "size_w im \<noteq> 0 \<and> 1 \<le> width a
    \<and> 1 \<le> py_round (of_int (width a * int (size_h im)) / of_int (int (size_w im)))
    \<and> im_small = \<lparr>size_w = nat (width a),
          size_h = nat (py_round (of_int (width a * int (size_h im)) / of_int (int (size_w im)))),
          px = L im (nat (width a),
            nat (py_round (of_int (width a * int (size_h im)) / of_int (int (size_w im)))))\<rparr>"
  using assms
  by (auto simp: normalize_def target_height_def pil_resize_def Let_def split: if_splits)

lemma np_array_shape:
  "length (np_array im) = size_h im \<and> (\<forall>row \<in> set (np_array im). length row = size_w im)"
  by (auto simp: np_array_def)

text \<open>
  C6. Whenever the normalizer yields a pixel grid from a source image of size
  \<open>(w0, h0)\<close> and a requested width with \<open>target_w \<sdot> h0\<close> below \<open>2 ^ 52\<close>, every row of
  the grid has exactly the requested number of pixels and the number of rows is
  \<^verbatim>\<open>round((target_w * h0) / w0)\<close>: the rounding of the floating-point quotient, which
  under that bound is the integer nearest to the exact quotient, the even one of the two
  when the quotient lies exactly halfway.
\<close>

theorem normalize_dimensions:
  assumes "normalize L a im = Inr im_small"
    and "width a * int (size_h im) < 2 ^ 52"
  shows "int (size_w im_small) = width a
    \<and> (\<forall>row \<in> set (np_array im_small). int (length row) = width a)
    \<and> length (np_array im_small) = size_h im_small
    \<and> (\<exists>fq. true_divide (width a * int (size_h im)) (int (size_w im)) = Inr fq
          \<and> int (size_h im_small) = py_round fq)
    \<and> int (size_h im_small) = py_round (of_int (width a * int (size_h im)) / of_int (int (size_w im)))
    \<and> \<bar>of_int (int (size_h im_small)) - of_int (width a * int (size_h im)) / of_int (int (size_w im))\<bar>
        \<le> (1 / 2 :: rat)
    \<and> (\<bar>of_int (int (size_h im_small)) - of_int (width a * int (size_h im)) / of_int (int (size_w im))\<bar>
        = (1 / 2 :: rat) \<longrightarrow> even (size_h im_small))"
proof -
  define q :: rat where "q = of_int (width a * int (size_h im)) / of_int (int (size_w im))"
  from normalize_Inr [OF assms(1)]
  have w0: "size_w im \<noteq> 0" and w: "1 \<le> width a" and h: "1 \<le> py_round q"
    and s: "im_small = \<lparr>size_w = nat (width a), size_h = nat (py_round q),
          px = L im (nat (width a), nat (py_round q))\<rparr>"
    unfolding q_def by simp_all
  have sw: "int (size_w im_small) = width a" using w by (simp add: s)
  have sh: "int (size_h im_small) = py_round q" using h by (simp add: s)
  have rows: "\<forall>row \<in> set (np_array im_small). int (length row) = width a"
    using np_array_shape [of im_small] sw by simp
  have len: "length (np_array im_small) = size_h im_small"
    using np_array_shape [of im_small] by simp
  have "0 < int (size_w im)" using w0 by simp
  moreover have "0 \<le> width a * int (size_h im)" using w by simp
  ultimately have "\<exists>fq. true_divide (width a * int (size_h im)) (int (size_w im)) = Inr fq
      \<and> py_round fq = py_round q"
    unfolding q_def using assms(2) by (rule true_divide_round)
  then have fl: "\<exists>fq. true_divide (width a * int (size_h im)) (int (size_w im)) = Inr fq
      \<and> int (size_h im_small) = py_round fq"
    unfolding sh by metis
  have near: "\<bar>of_int (int (size_h im_small)) - q\<bar> \<le> 1 / 2"
    unfolding sh by (rule py_round_nearest)
  have tie: "even (size_h im_small)" if "\<bar>of_int (int (size_h im_small)) - q\<bar> = 1 / 2"
  proof -
    from that have "even (py_round q)" unfolding sh by (rule py_round_tie_even)
    then have "even (int (size_h im_small))" by (simp only: sh)
    then show ?thesis by simp
  qed
  from sw rows len fl sh near tie show ?thesis unfolding q_def by blast
qed

theorem normalize_dimensions_witness:
  "normalize keep_pixels (example_args\<lparr>width := 1\<rparr>) \<lparr>size_w = 4, size_h = 10, px = (\<lambda>xy. (0, 0, 0))\<rparr>
     = Inr \<lparr>size_w = 1, size_h = 2,
            px = keep_pixels \<lparr>size_w = 4, size_h = 10, px = (\<lambda>xy. (0, 0, 0))\<rparr> (1, 2)\<rparr>
   \<and> width (example_args\<lparr>width := 1\<rparr>) * 10 < 2 ^ 52
   \<and> length (np_array \<lparr>size_w = 1, size_h = 2,
            px = keep_pixels \<lparr>size_w = 4, size_h = 10, px = (\<lambda>xy. (0, 0, 0))\<rparr> (1, 2)\<rparr>) = 2
   \<and> (\<exists>fq. true_divide 10 4 = Inr fq \<and> py_round fq = 2)
   \<and> py_round (10 / 4) = 2"
proof -
  have "py_round (of_int 10 / of_int 4) = 2"
    by (subst py_round_quotient) simp_all
  then have r: "py_round (10 / 4) = 2" by simp
  have n: "normalize keep_pixels (example_args\<lparr>width := 1\<rparr>)
      \<lparr>size_w = 4, size_h = 10, px = (\<lambda>xy. (0, 0, 0))\<rparr>
     = Inr \<lparr>size_w = 1, size_h = 2,
            px = keep_pixels \<lparr>size_w = 4, size_h = 10, px = (\<lambda>xy. (0, 0, 0))\<rparr> (1, 2)\<rparr>"
    using r by (simp add: normalize_def target_height_def pil_resize_def Let_def example_args_def)
  have b: "width (example_args\<lparr>width := 1\<rparr>)
      * int (size_h \<lparr>size_w = 4, size_h = 10, px = (\<lambda>xy. (0, 0, 0))\<rparr>) < 2 ^ 52"
    by simp
  from normalize_dimensions [OF n b] have
    "\<exists>fq. true_divide 10 4 = Inr fq \<and> (2::int) = py_round fq" by simp
  then have "\<exists>fq. true_divide 10 4 = Inr fq \<and> py_round fq = 2" by metis
  moreover from normalize_dimensions [OF n b] have
    "length (np_array \<lparr>size_w = 1, size_h = 2,
            px = keep_pixels \<lparr>size_w = 4, size_h = 10, px = (\<lambda>xy. (0, 0, 0))\<rparr> (1, 2)\<rparr>) = 2"
    by simp
  ultimately show ?thesis using n r by simp
qed

section \<open>The built-in palettes\<close>

lemma palette_in_range:
  "list_all (\<lambda>(n, (r, g, b)). 0 \<le> r \<and> r \<le> 255 \<and> 0 \<le> g \<and> g \<le> 255 \<and> 0 \<le> b \<and> b \<le> 255)
     (PALETTES bt)"
  by (cases bt) (simp_all add: CONCRETE_PALETTE_def WOOL_PALETTE_def)

lemma uint_word_of_int_byte:
  assumes "0 \<le> r" "r \<le> 255"
  shows "uint (word_of_int r :: uint8) = r"
proof -
  have "take_bit 8 r = r"
    using assms by (intro take_bit_int_eq_self) simp_all
  then show ?thesis by (simp add: uint_word_of_int_eq)
qed

lemma sint_word_of_int_byte:
  assumes "0 \<le> r" "r \<le> 255"
  shows "sint (word_of_int r :: int16) = r"
proof -
  have "signed_take_bit 15 r = r"
    using assms by (intro signed_take_bit_int_eq_self) simp_all
  then show ?thesis by (simp add: sint_sbintrunc')
qed

lemma clip8_byte:
  assumes "0 \<le> r" "r \<le> 255"
  shows "clip8 r = word_of_int r"
  using assms by (simp add: clip8_def)

lemma rgb_ints_palette: "map rgb_ints (palette_rgb8 bt) = map snd (PALETTES bt)"
proof -
  have "rgb_ints (case e of (n, (r, g, b)) \<Rightarrow> (word_of_int r, word_of_int g, word_of_int b)) = snd e"
    if "e \<in> set (PALETTES bt)" for e
  proof -
    obtain n r g b where e: "e = (n, (r, g, b))" by (cases e) auto
    from palette_in_range [of bt] that
    have "0 \<le> r \<and> r \<le> 255 \<and> 0 \<le> g \<and> g \<le> 255 \<and> 0 \<le> b \<and> b \<le> 255"
      unfolding list_all_iff e by blast
    then show ?thesis
      by (simp add: e rgb_ints_def uint_word_of_int_byte)
  qed
  then show ?thesis
    by (simp add: palette_rgb8_def)
qed

lemma length_palette_rgb8: "length (palette_rgb8 bt) = 16"
  by (simp add: palette_rgb8_def length_PALETTES)

lemma palette_colors_eq:
  "np_array_int16 (map snd (PALETTES bt)) = np_array_int16 (map rgb_ints (palette_rgb8 bt))"
  by (simp only: rgb_ints_palette)

lemma nearest_color_matched:
  "nearest_color rgb (np_array_int16 (map snd (PALETTES bt))) = Inr (matched_index bt rgb)
    \<and> matched_index bt rgb < 16"
proof -
  obtain c cs where p: "palette_rgb8 bt = c # cs"
    using length_palette_rgb8 [of bt] by (cases "palette_rgb8 bt") simp_all
  have m: "matched_index bt rgb = scan_from rgb 1 0 (sqdist rgb c) cs"
    by (simp add: matched_index_def p)
  have r: "nearest_color rgb (np_array_int16 (map snd (PALETTES bt))) = Inr (matched_index bt rgb)"
    unfolding palette_colors_eq p m by (rule nearest_color_scan)
  have "palette_rgb8 bt \<noteq> []" by (simp add: p)
  from nearest_color_first_min [OF this, of rgb] obtain i where
    "nearest_color rgb (np_array_int16 (map rgb_ints (palette_rgb8 bt))) = Inr i"
    "i < length (palette_rgb8 bt)" by blast
  with r have "matched_index bt rgb < 16"
    by (simp add: palette_colors_eq length_palette_rgb8)
  with r show ?thesis by simp
qed

lemma sint_index:
  assumes "i < 16"
  shows "sint (word_of_nat i :: int32) = int i"
proof -
  have "signed_take_bit 31 (int i) = int i"
    using assms by (intro signed_take_bit_int_eq_self) simp_all
  with sint_sbintrunc' [where 'a = 32, of "int i"] show ?thesis by simp
qed

lemma palette_entry_byte:
  assumes "i < 16"
  shows "(case tolist (np_array_int16 (map snd (PALETTES bt)) ! i) of
           (r, g, b) \<Rightarrow> (clip8 r, clip8 g, clip8 b)) = palette_rgb8 bt ! i"
proof -
  have i: "i < length (PALETTES bt)" using assms by (simp add: length_PALETTES)
  obtain n r g b where e: "PALETTES bt ! i = (n, (r, g, b))" by (cases "PALETTES bt ! i") auto
  have "PALETTES bt ! i \<in> set (PALETTES bt)" using i by (rule nth_mem)
  with palette_in_range [of bt]
  have "0 \<le> r \<and> r \<le> 255 \<and> 0 \<le> g \<and> g \<le> 255 \<and> 0 \<le> b \<and> b \<le> 255"
    unfolding list_all_iff e by blast
  then show ?thesis
    using i by (simp add: np_array_int16_def palette_rgb8_def tolist_def e
        sint_word_of_int_byte clip8_byte)
qed

section \<open>The run up to the command file\<close>

lemma quantize_main:
  "quantize (np_array im) (size_h im) (size_w im) (np_array_int16 (map snd (PALETTES bt)))
    = Inr (index_grid bt im)"
proof -
  have "quantize (np_array im) (size_h im) (size_w im) (np_array_int16 (map snd (PALETTES bt)))
    = Inr (map (\<lambda>y. map (\<lambda>x. word_of_nat (matched_index bt (np_array im ! y ! x)))
        [0..<size_w im]) [0..<size_h im])"
    by (rule quantize_total) (simp add: nearest_color_matched)
  also have "map (\<lambda>y. map (\<lambda>x. word_of_nat (matched_index bt (np_array im ! y ! x)))
        [0..<size_w im]) [0..<size_h im] = index_grid bt im"
    unfolding index_grid_def
    by (intro map_cong refl) (simp add: np_array_def)
  finally show ?thesis .
qed

lemma index_grid_nth:
  assumes "row < size_h im" "col < size_w im"
  shows "index_grid bt im ! row ! col = word_of_nat (matched_index bt (px im (col, row)))"
  using assms by (simp add: index_grid_def)

lemma sint_index_grid:
  assumes "row < size_h im" "col < size_w im"
  shows "sint (index_grid bt im ! row ! col) = int (matched_index bt (px im (col, row)))"
  unfolding index_grid_nth [OF assms]
  using nearest_color_matched [of "px im (col, row)" bt] by (intro sint_index) simp

lemma index_grid_valid: "quantized_grid (size_h im) (size_w im) 16 (index_grid bt im)"
proof -
  have "0 \<le> sint (word_of_nat (matched_index bt rgb) :: int32)
      \<and> sint (word_of_nat (matched_index bt rgb) :: int32) < 16" for rgb
    using nearest_color_matched [of rgb bt] by (simp add: sint_index)
  then show ?thesis
    by (simp add: quantized_grid_def index_grid_def list_all_iff)
qed

lemma main_after_normalize:
  assumes "normalize L a im = Inr im_small"
  shows "main L codec a im wd =
    (case build_commands a (size_h im_small) (size_w im_small) (index_grid (blocktype a) im_small)
            (map fst (PALETTES (blocktype a))) of
       Inl e \<Rightarrow> (Inl e, wd)
     | Inr commands \<Rightarrow>
         finish codec a (size_h im_small) (size_w im_small) (index_grid (blocktype a) im_small)
           (np_array_int16 (map snd (PALETTES (blocktype a))))
           (make_mcfunction commands (out a) wd))"
  by (simp add: main_def assms Let_def quantize_main)

lemma normalized_positive:
  assumes "normalize L a im = Inr im_small"
  shows "0 < size_w im_small \<and> 0 < size_h im_small"
  using normalize_Inr [OF assms]
  by (metis image.select_convs(1,2) zero_less_nat_eq zero_less_one less_le_trans)

lemma main_commands:
  assumes "normalize L a im = Inr im_small"
  shows "main L codec a im wd =
    (if max_commands a < int (size_w im_small * size_h im_small)
     then (Inl (SystemExit (limit_message (max_commands a))), wd)
     else finish codec a (size_h im_small) (size_w im_small) (index_grid (blocktype a) im_small)
           (np_array_int16 (map snd (PALETTES (blocktype a))))
           (make_mcfunction
              (spec_commands a (size_h im_small) (size_w im_small)
                 (map fst (PALETTES (blocktype a))) (index_grid (blocktype a) im_small))
              (out a) wd))"
proof -
  define names where "names = map fst (PALETTES (blocktype a))"
  define G where "G = index_grid (blocktype a) im_small"
  define cmds where "cmds = spec_commands a (size_h im_small) (size_w im_small) names G"
  have g: "quantized_grid (size_h im_small) (size_w im_small) (length names) G"
    using index_grid_valid [of im_small "blocktype a"]
    by (simp add: names_def G_def length_PALETTES)
  have l: "length cmds = size_h im_small * size_w im_small"
    by (simp add: cmds_def length_spec_commands)
  from normalized_positive [OF assms] have "0 < length cmds" by (simp add: l)
  then have ne: "cmds \<noteq> []" by auto
  have "build_commands a (size_h im_small) (size_w im_small) G names =
    (if cmds \<noteq> [] \<and> max_commands a < int (length cmds)
     then Inl (SystemExit (limit_message (max_commands a))) else Inr cmds)"
    unfolding cmds_def using g by (rule build_commands_valid)
  then have "build_commands a (size_h im_small) (size_w im_small) G names =
    (if max_commands a < int (size_w im_small * size_h im_small)
     then Inl (SystemExit (limit_message (max_commands a))) else Inr cmds)"
    using ne by (simp add: l mult.commute)
  then show ?thesis
    unfolding main_after_normalize [OF assms] names_def [symmetric] G_def [symmetric]
      cmds_def [symmetric]
    by simp
qed

section \<open>The preview\<close>

lemma for_loop_total:
  assumes "\<And>x s. x \<in> set xs \<Longrightarrow> body x s = Inr (g x s)"
  shows "for_loop xs body s = Inr (fold g xs s)"
  using assms by (induction xs arbitrary: s) simp_all

lemma fold_paint_row:
  "fold (\<lambda>x im. im\<lparr>px := (px im)((x, y) := c (x, y))\<rparr>) xs (im :: image)
    = im\<lparr>px := (\<lambda>p. if snd p = y \<and> fst p \<in> set xs then c p else px im p)\<rparr>"
proof -
  define F where "F = (\<lambda>x (im :: image). im\<lparr>px := (px im)((x, y) := c (x, y))\<rparr>)"
  have "fold F xs im = im\<lparr>px := (\<lambda>p. if snd p = y \<and> fst p \<in> set xs then c p else px im p)\<rparr>"
  proof (induction xs arbitrary: im)
    case Nil
    show ?case by simp
  next
    case (Cons x xs)
    have a: "px (F x im) = (px im)((x, y) := c (x, y))" by (simp add: F_def)
    have h: "(\<lambda>p. if snd p = y \<and> fst p \<in> set xs then c p else px (F x im) p)
      = (\<lambda>p. if snd p = y \<and> fst p \<in> set (x # xs) then c p else px im p)"
      unfolding a by (rule ext) (auto simp: prod_eq_iff)
    have u: "(F x im)\<lparr>px := A\<rparr> = im\<lparr>px := A\<rparr>" for A
      by (simp add: F_def)
    have "fold F (x # xs) im = fold F xs (F x im)" by simp
    also have "\<dots> = (F x im)\<lparr>px := (\<lambda>p. if snd p = y \<and> fst p \<in> set xs then c p
        else px (F x im) p)\<rparr>"
      by (rule Cons.IH)
    also have "\<dots> = im\<lparr>px := (\<lambda>p. if snd p = y \<and> fst p \<in> set (x # xs) then c p else px im p)\<rparr>"
      unfolding h by (rule u)
    finally show ?case .
  qed
  then show ?thesis unfolding F_def .
qed

lemma fold_paint_rows:
  "fold (\<lambda>y im. im\<lparr>px := (\<lambda>p. if snd p = y \<and> fst p \<in> set xs then c p else px im p)\<rparr>) ys
      (im :: image)
    = im\<lparr>px := (\<lambda>p. if snd p \<in> set ys \<and> fst p \<in> set xs then c p else px im p)\<rparr>"
proof -
  define F where "F = (\<lambda>y (im :: image).
    im\<lparr>px := (\<lambda>p. if snd p = y \<and> fst p \<in> set xs then c p else px im p)\<rparr>)"
  have "fold F ys im = im\<lparr>px := (\<lambda>p. if snd p \<in> set ys \<and> fst p \<in> set xs then c p else px im p)\<rparr>"
  proof (induction ys arbitrary: im)
    case Nil
    show ?case by simp
  next
    case (Cons y ys)
    have a: "px (F y im) = (\<lambda>p. if snd p = y \<and> fst p \<in> set xs then c p else px im p)"
      by (simp add: F_def)
    have h: "(\<lambda>p. if snd p \<in> set ys \<and> fst p \<in> set xs then c p else px (F y im) p)
      = (\<lambda>p. if snd p \<in> set (y # ys) \<and> fst p \<in> set xs then c p else px im p)"
      unfolding a by (rule ext) auto
    have u: "(F y im)\<lparr>px := A\<rparr> = im\<lparr>px := A\<rparr>" for A
      by (simp add: F_def)
    have "fold F (y # ys) im = fold F ys (F y im)" by simp
    also have "\<dots> = (F y im)\<lparr>px := (\<lambda>p. if snd p \<in> set ys \<and> fst p \<in> set xs then c p
        else px (F y im) p)\<rparr>"
      by (rule Cons.IH)
    also have "\<dots> = im\<lparr>px := (\<lambda>p. if snd p \<in> set (y # ys) \<and> fst p \<in> set xs then c p
        else px im p)\<rparr>"
      unfolding h by (rule u)
    finally show ?case .
  qed
  then show ?thesis unfolding F_def .
qed

lemma paint_cell:
  assumes "y < size_h im" "x < size_w im"
  shows "(case py_index (np_array_int16 (map snd (PALETTES bt))) (sint (index_grid bt im ! y ! x)) of
            Inl e \<Rightarrow> Inl e
          | Inr c \<Rightarrow> Inr (putpixel pv (x, y) (tolist c)))
    = Inr (pv\<lparr>px := (px pv)((x, y) := palette_rgb8 bt ! matched_index bt (px im (x, y)))\<rparr>)"
proof -
  define i where "i = matched_index bt (px im (x, y))"
  have i: "i < 16" unfolding i_def using nearest_color_matched [of "px im (x, y)" bt] by simp
  have s: "sint (index_grid bt im ! y ! x) = int i"
    unfolding i_def using assms by (rule sint_index_grid)
  have l: "length (np_array_int16 (map snd (PALETTES bt))) = 16"
    by (simp add: np_array_int16_def length_PALETTES)
  have p: "py_index (np_array_int16 (map snd (PALETTES bt))) (int i)
    = Inr (np_array_int16 (map snd (PALETTES bt)) ! i)"
    using i by (simp add: py_index_def l)
  have q: "putpixel pv (x, y) (tolist (np_array_int16 (map snd (PALETTES bt)) ! i))
    = pv\<lparr>px := (px pv)((x, y) := palette_rgb8 bt ! i)\<rparr>"
    using palette_entry_byte [OF i, of bt]
    by (cases "tolist (np_array_int16 (map snd (PALETTES bt)) ! i)") (simp add: putpixel_def)
  have "(case py_index (np_array_int16 (map snd (PALETTES bt))) (sint (index_grid bt im ! y ! x)) of
            Inl e \<Rightarrow> Inl e
          | Inr c \<Rightarrow> Inr (putpixel pv (x, y) (tolist c)))
    = Inr (pv\<lparr>px := (px pv)((x, y) := palette_rgb8 bt ! i)\<rparr>)"
    by (simp only: s p sum.case q)
  then show ?thesis unfolding i_def .
qed

lemma paint_preview_main:
  "paint_preview (size_h im) (size_w im) (index_grid bt im) (np_array_int16 (map snd (PALETTES bt)))
    = Inr \<lparr>size_w = size_w im, size_h = size_h im,
           px = (\<lambda>p. if snd p < size_h im \<and> fst p < size_w im
                      then palette_rgb8 bt ! matched_index bt (px im p) else (0, 0, 0))\<rparr>"
proof -
  define c where "c = (\<lambda>p. palette_rgb8 bt ! matched_index bt (px im p))"
  define pc where "pc = np_array_int16 (map snd (PALETTES bt))"
  have inner: "for_loop [0..<size_w im]
      (\<lambda>x pv. case py_index pc (sint (index_grid bt im ! y ! x)) of
                 Inl e \<Rightarrow> Inl e | Inr col \<Rightarrow> Inr (putpixel pv (x, y) (tolist col))) pv
    = Inr (pv\<lparr>px := (\<lambda>p. if snd p = y \<and> fst p \<in> set [0..<size_w im] then c p else px pv p)\<rparr>)"
    if "y < size_h im" for y pv
  proof -
    have "for_loop [0..<size_w im]
      (\<lambda>x pv. case py_index pc (sint (index_grid bt im ! y ! x)) of
                 Inl e \<Rightarrow> Inl e | Inr col \<Rightarrow> Inr (putpixel pv (x, y) (tolist col))) pv
      = Inr (fold (\<lambda>x pv. pv\<lparr>px := (px pv)((x, y) := c (x, y))\<rparr>) [0..<size_w im] pv)"
      unfolding pc_def c_def using that by (intro for_loop_total paint_cell) simp_all
    then show ?thesis by (simp only: fold_paint_row)
  qed
  have "paint_preview (size_h im) (size_w im) (index_grid bt im) pc
    = Inr (fold (\<lambda>y pv. pv\<lparr>px := (\<lambda>p. if snd p = y \<and> fst p \<in> set [0..<size_w im]
                                        then c p else px pv p)\<rparr>)
        [0..<size_h im] (image_new (size_w im, size_h im)))"
    unfolding paint_preview_def by (rule for_loop_total) (simp add: inner)
  also have "fold (\<lambda>y pv. pv\<lparr>px := (\<lambda>p. if snd p = y \<and> fst p \<in> set [0..<size_w im]
                                        then c p else px pv p)\<rparr>)
        [0..<size_h im] (image_new (size_w im, size_h im))
    = (image_new (size_w im, size_h im))\<lparr>px := (\<lambda>p. if snd p \<in> set [0..<size_h im]
          \<and> fst p \<in> set [0..<size_w im] then c p else px (image_new (size_w im, size_h im)) p)\<rparr>"
    by (rule fold_paint_rows)
  finally have f: "paint_preview (size_h im) (size_w im) (index_grid bt im) pc
    = Inr ((image_new (size_w im, size_h im))\<lparr>px := (\<lambda>p. if snd p \<in> set [0..<size_h im]
          \<and> fst p \<in> set [0..<size_w im] then c p else px (image_new (size_w im, size_h im)) p)\<rparr>)" .
  have e: "(image_new (size_w im, size_h im))\<lparr>px := (\<lambda>p. if snd p \<in> set [0..<size_h im]
          \<and> fst p \<in> set [0..<size_w im] then c p else px (image_new (size_w im, size_h im)) p)\<rparr>
    = \<lparr>size_w = size_w im, size_h = size_h im,
           px = (\<lambda>p. if snd p < size_h im \<and> fst p < size_w im
                      then palette_rgb8 bt ! matched_index bt (px im p) else (0, 0, 0))\<rparr>"
    by (simp add: image_new_def c_def cong: if_cong)
  show ?thesis using f unfolding e pc_def .
qed

lemma upscale_index:
  assumes "0 < W" "dx < 8"
  shows "((2 * (col * 8 + dx) + 1) * W) div (2 * (W * 8)) = (col :: nat)"
proof -
  have n: "2 * (col * 8 + dx) + 1 = 16 * col + (2 * dx + 1)" by simp
  have d: "2 * (W * 8) = 16 * W" by simp
  have "((16 * col + (2 * dx + 1)) * W) div (16 * W) = (16 * col + (2 * dx + 1)) div 16"
    using assms(1) by (intro div_mult_mult2) simp
  also have "\<dots> = col"
    using assms(2) by simp
  finally show ?thesis unfolding n d .
qed

lemma render_preview_main:
  assumes "0 < size_w im" "0 < size_h im"
  shows "\<exists>pv. render_preview (size_h im) (size_w im) (index_grid bt im)
        (np_array_int16 (map snd (PALETTES bt))) = Inr pv
    \<and> size_w pv = size_w im * 8 \<and> size_h pv = size_h im * 8
    \<and> (\<forall>row < size_h im. \<forall>col < size_w im. \<forall>dy < 8. \<forall>dx < 8.
          px pv (col * 8 + dx, row * 8 + dy)
            = palette_rgb8 bt ! matched_index bt (px im (col, row)))"
proof -
  define painted where "painted = \<lparr>size_w = size_w im, size_h = size_h im,
           px = (\<lambda>p. if snd p < size_h im \<and> fst p < size_w im
                      then palette_rgb8 bt ! matched_index bt (px im p) else (0, 0, 0))\<rparr>"
  define pv where "pv = \<lparr>size_w = size_w im * 8, size_h = size_h im * 8,
    px = NEAREST painted (size_w im * 8, size_h im * 8)\<rparr>"
  have r: "render_preview (size_h im) (size_w im) (index_grid bt im)
        (np_array_int16 (map snd (PALETTES bt))) = Inr pv"
    using assms
    by (simp add: render_preview_def paint_preview_main painted_def [symmetric]
        pil_resize_def pv_def nat_mult_distrib)
  have cell: "px pv (col * 8 + dx, row * 8 + dy)
      = palette_rgb8 bt ! matched_index bt (px im (col, row))"
    if "row < size_h im" "col < size_w im" "dy < 8" "dx < 8" for row col dy dx
  proof -
    have sz: "size_w painted = size_w im" "size_h painted = size_h im"
      by (simp_all add: painted_def)
    have "px pv (col * 8 + dx, row * 8 + dy)
      = px painted (((2 * (col * 8 + dx) + 1) * size_w im) div (2 * (size_w im * 8)),
                    ((2 * (row * 8 + dy) + 1) * size_h im) div (2 * (size_h im * 8)))"
      by (simp only: pv_def image.simps NEAREST_def prod.case sz)
    also have "\<dots> = px painted (col, row)"
      by (simp only: upscale_index [OF assms(1) that(4)] upscale_index [OF assms(2) that(3)])
    also have "\<dots> = palette_rgb8 bt ! matched_index bt (px im (col, row))"
      using that by (simp add: painted_def)
    finally show ?thesis .
  qed
  have "size_w pv = size_w im * 8" "size_h pv = size_h im * 8" by (simp_all add: pv_def)
  with r cell show ?thesis by blast
qed

section \<open>The whole run\<close>

lemma finish_main:
  assumes "0 < size_w im" "0 < size_h im"
  shows "\<exists>pv. render_preview (size_h im) (size_w im) (index_grid (blocktype a) im)
        (np_array_int16 (map snd (PALETTES (blocktype a)))) = Inr pv
    \<and> finish codec a (size_h im) (size_w im) (index_grid (blocktype a) im)
        (np_array_int16 (map snd (PALETTES (blocktype a)))) wd1
      = (case preview a of
           None \<Rightarrow> (Inr (), wd1\<lparr>stdout := stdout wd1 @ usage_lines\<rparr>)
         | Some path \<Rightarrow>
             if path = [] then (Inr (), wd1\<lparr>stdout := stdout wd1 @ usage_lines\<rparr>)
             else (case codec path of
                     None \<Rightarrow> (Inl (ValueError UnknownExtension), wd1)
                   | Some enc \<Rightarrow>
                       (Inr (), wd1\<lparr>files := (files wd1)(path \<mapsto> Bitmap (enc pv)),
                                     stdout := stdout wd1 @ [''Saved preview: '' @ path]
                                       @ usage_lines\<rparr>)))"
proof -
  from render_preview_main [OF assms, of "blocktype a"] obtain pv where
    r: "render_preview (size_h im) (size_w im) (index_grid (blocktype a) im)
        (np_array_int16 (map snd (PALETTES (blocktype a)))) = Inr pv"
    by blast
  then show ?thesis
    by (intro exI [of _ pv])
      (simp add: finish_def save_preview_def Let_def split: option.splits)
qed

lemma main_under_limit:
  assumes "normalize L a im = Inr im_small"
    and "int (size_w im_small * size_h im_small) \<le> max_commands a"
  shows "\<exists>pv. render_preview (size_h im_small) (size_w im_small) (index_grid (blocktype a) im_small)
        (np_array_int16 (map snd (PALETTES (blocktype a)))) = Inr pv
    \<and> main L codec a im wd =
      (case preview a of
         None \<Rightarrow> (Inr (),
           (make_mcfunction (spec_commands a (size_h im_small) (size_w im_small)
               (map fst (PALETTES (blocktype a))) (index_grid (blocktype a) im_small)) (out a) wd)
             \<lparr>stdout := stdout (make_mcfunction (spec_commands a (size_h im_small) (size_w im_small)
               (map fst (PALETTES (blocktype a))) (index_grid (blocktype a) im_small)) (out a) wd)
                @ usage_lines\<rparr>)
       | Some path \<Rightarrow>
           if path = [] then (Inr (),
             (make_mcfunction (spec_commands a (size_h im_small) (size_w im_small)
               (map fst (PALETTES (blocktype a))) (index_grid (blocktype a) im_small)) (out a) wd)
             \<lparr>stdout := stdout (make_mcfunction (spec_commands a (size_h im_small) (size_w im_small)
               (map fst (PALETTES (blocktype a))) (index_grid (blocktype a) im_small)) (out a) wd)
                @ usage_lines\<rparr>)
           else (case codec path of
                   None \<Rightarrow> (Inl (ValueError UnknownExtension),
                     make_mcfunction (spec_commands a (size_h im_small) (size_w im_small)
                       (map fst (PALETTES (blocktype a))) (index_grid (blocktype a) im_small))
                       (out a) wd)
                 | Some enc \<Rightarrow> (Inr (),
                     (make_mcfunction (spec_commands a (size_h im_small) (size_w im_small)
                       (map fst (PALETTES (blocktype a))) (index_grid (blocktype a) im_small))
                       (out a) wd)
                     \<lparr>files := (files (make_mcfunction (spec_commands a (size_h im_small)
                          (size_w im_small) (map fst (PALETTES (blocktype a)))
                          (index_grid (blocktype a) im_small)) (out a) wd))(path \<mapsto> Bitmap (enc pv)),
                       stdout := stdout (make_mcfunction (spec_commands a (size_h im_small)
                          (size_w im_small) (map fst (PALETTES (blocktype a)))
                          (index_grid (blocktype a) im_small)) (out a) wd)
                          @ [''Saved preview: '' @ path] @ usage_lines\<rparr>)))"
proof -
  define wd1 where "wd1 = make_mcfunction
    (spec_commands a (size_h im_small) (size_w im_small)
       (map fst (PALETTES (blocktype a))) (index_grid (blocktype a) im_small)) (out a) wd"
  from normalized_positive [OF assms(1)]
  have pos: "0 < size_w im_small" "0 < size_h im_small" by simp_all
  have m: "main L codec a im wd = finish codec a (size_h im_small) (size_w im_small)
      (index_grid (blocktype a) im_small) (np_array_int16 (map snd (PALETTES (blocktype a)))) wd1"
    unfolding main_commands [OF assms(1)] wd1_def using assms(2) by simp
  from finish_main [OF pos, of a codec wd1]
  show ?thesis unfolding m wd1_def [symmetric] .
qed

lemma files_make_mcfunction:
  "files (make_mcfunction cmds path wd)
    = (files wd)(path \<mapsto> Text (concat (map (\<lambda>cmd. cmd @ [CHR 0x0A]) cmds)))"
  by (simp add: make_mcfunction_def)

text \<open>
  C2. For every grid the normalizer yields, of \<open>H\<close> rows and \<open>W\<close> columns, and every
  \<^verbatim>\<open>--max-commands\<close>: if \<open>W \<sdot> H\<close> exceeds the maximum, the run ends with the
  command-limit exit and leaves every file and the output as they were, so the command
  file is neither created nor overwritten; otherwise there is no such exit (the run ends
  normally, or with the error of saving the preview under a path of unknown extension),
  the list has \<open>W \<sdot> H\<close> commands and, unless the preview is saved under the same path
  afterwards, the command file holds all of them, one per line.
\<close>

theorem command_limit:
  assumes "normalize L a im = Inr im_small"
  shows "(max_commands a < int (size_w im_small * size_h im_small) \<longrightarrow>
           main L codec a im wd = (Inl (SystemExit (limit_message (max_commands a))), wd))
    \<and> (int (size_w im_small * size_h im_small) \<le> max_commands a \<longrightarrow>
           (fst (main L codec a im wd) = Inr ()
              \<or> fst (main L codec a im wd) = Inl (ValueError UnknownExtension))
           \<and> length (spec_commands a (size_h im_small) (size_w im_small)
                  (map fst (PALETTES (blocktype a))) (index_grid (blocktype a) im_small))
               = size_w im_small * size_h im_small
           \<and> (preview a \<noteq> Some (out a) \<longrightarrow>
                files (snd (main L codec a im wd)) (out a)
                  = Some (Text (concat (map (\<lambda>cmd. cmd @ [CHR 0x0A])
                      (spec_commands a (size_h im_small) (size_w im_small)
                         (map fst (PALETTES (blocktype a))) (index_grid (blocktype a) im_small)))))))"
proof (intro conjI impI)
  assume "max_commands a < int (size_w im_small * size_h im_small)"
  then show "main L codec a im wd = (Inl (SystemExit (limit_message (max_commands a))), wd)"
    unfolding main_commands [OF assms] by simp
next
  assume u: "int (size_w im_small * size_h im_small) \<le> max_commands a"
  from main_under_limit [OF assms u, of codec wd]
  show "fst (main L codec a im wd) = Inr ()
      \<or> fst (main L codec a im wd) = Inl (ValueError UnknownExtension)"
    by (auto split: option.splits if_splits)
  show "length (spec_commands a (size_h im_small) (size_w im_small)
                  (map fst (PALETTES (blocktype a))) (index_grid (blocktype a) im_small))
               = size_w im_small * size_h im_small"
    by (simp add: length_spec_commands mult.commute)
  assume "preview a \<noteq> Some (out a)"
  with main_under_limit [OF assms u, of codec wd]
  show "files (snd (main L codec a im wd)) (out a)
                  = Some (Text (concat (map (\<lambda>cmd. cmd @ [CHR 0x0A])
                      (spec_commands a (size_h im_small) (size_w im_small)
                         (map fst (PALETTES (blocktype a))) (index_grid (blocktype a) im_small)))))"
    by (auto simp: files_make_mcfunction split: option.splits if_splits)
qed

lemma example_normalize:
  "normalize keep_pixels (example_args\<lparr>max_commands := m\<rparr>) example_image
    = Inr \<lparr>size_w = 2, size_h = 1, px = keep_pixels example_image (2, 1)\<rparr>"
proof -
  have "py_round (of_int (2 * 1) / of_int 2) = 1"
    by (subst py_round_quotient) simp_all
  then have "py_round (2 / 2) = 1" by simp
  then show ?thesis
    by (simp add: normalize_def target_height_def pil_resize_def Let_def example_args_def
        example_image_def)
qed

theorem command_limit_witness:
  "normalize keep_pixels (example_args\<lparr>max_commands := 1\<rparr>) example_image
     = Inr \<lparr>size_w = 2, size_h = 1, px = keep_pixels example_image (2, 1)\<rparr>
   \<and> main keep_pixels png_only (example_args\<lparr>max_commands := 1\<rparr>) example_image empty_world
     = (Inl (SystemExit ''Aborting: command count exceeded max-commands (1).''), empty_world)
   \<and> (fst (main keep_pixels png_only (example_args\<lparr>max_commands := 2\<rparr>) example_image empty_world)
         = Inr ()
       \<or> fst (main keep_pixels png_only (example_args\<lparr>max_commands := 2\<rparr>) example_image empty_world)
         = Inl (ValueError UnknownExtension))"
proof -
  have m: "limit_message 1 = ''Aborting: command count exceeded max-commands (1).''"
    by (simp add: limit_message_def str_int_def str_nat_small digit_char_def)
  from command_limit [OF example_normalize [of 1], of png_only empty_world]
  have "main keep_pixels png_only (example_args\<lparr>max_commands := 1\<rparr>) example_image empty_world
      = (Inl (SystemExit (limit_message 1)), empty_world)"
    by simp
  moreover from command_limit [OF example_normalize [of 2], of png_only empty_world]
  have "fst (main keep_pixels png_only (example_args\<lparr>max_commands := 2\<rparr>) example_image empty_world)
         = Inr ()
       \<or> fst (main keep_pixels png_only (example_args\<lparr>max_commands := 2\<rparr>) example_image empty_world)
         = Inl (ValueError UnknownExtension)"
    by simp
  ultimately show ?thesis using example_normalize [of 1] by (simp only: m simp_thms)
qed




text \<open>
  C8. For every grid the normalizer yields, of \<open>H\<close> rows and \<open>W\<close> columns, in a run
  under the command limit with a preview path, the bitmap rendered from the quantized
  grid and handed to \<^verbatim>\<open>save\<close> has size \<open>(W \<sdot> 8, H \<sdot> 8)\<close> and each of its 8 by 8 blocks is
  uniform: every pixel of the block of cell \<open>(row, col)\<close> has the RGB value the palette
  gives for the entry matched to that cell, the index \<^verbatim>\<open>nearest_color\<close> returns for the
  cell's pixel. What re-reading the saved file yields is that bitmap passed through the
  encoder of the path's extension, so the bitmap itself for a lossless format; under a
  path of unknown extension \<^verbatim>\<open>save\<close> raises \<^verbatim>\<open>ValueError\<close> and writes nothing.
\<close>

theorem preview_upscaled:
  assumes "normalize L a im = Inr im_small"
    and "int (size_w im_small * size_h im_small) \<le> max_commands a"
    and "preview a = Some path" and "path \<noteq> []"
  shows "\<exists>pv. quantize (np_array im_small) (size_h im_small) (size_w im_small)
            (np_array_int16 (map snd (PALETTES (blocktype a))))
          = Inr (index_grid (blocktype a) im_small)
    \<and> render_preview (size_h im_small) (size_w im_small) (index_grid (blocktype a) im_small)
          (np_array_int16 (map snd (PALETTES (blocktype a)))) = Inr pv
    \<and> size_w pv = size_w im_small * 8 \<and> size_h pv = size_h im_small * 8
    \<and> (\<forall>row < size_h im_small. \<forall>col < size_w im_small.
          nearest_color (px im_small (col, row)) (np_array_int16 (map snd (PALETTES (blocktype a))))
            = Inr (matched_index (blocktype a) (px im_small (col, row)))
          \<and> (\<forall>dy < 8. \<forall>dx < 8.
                rgb_ints (px pv (col * 8 + dx, row * 8 + dy))
                  = snd (PALETTES (blocktype a) ! matched_index (blocktype a) (px im_small (col, row)))))
    \<and> (case codec path of
          None \<Rightarrow> fst (main L codec a im wd) = Inl (ValueError UnknownExtension)
            \<and> (path \<noteq> out a \<longrightarrow> files (snd (main L codec a im wd)) path = files wd path)
        | Some enc \<Rightarrow> fst (main L codec a im wd) = Inr ()
            \<and> files (snd (main L codec a im wd)) path = Some (Bitmap (enc pv)))"
proof -
  from normalized_positive [OF assms(1)]
  have pos: "0 < size_w im_small" "0 < size_h im_small" by simp_all
  from render_preview_main [OF pos, of "blocktype a"] obtain pv where
    r: "render_preview (size_h im_small) (size_w im_small) (index_grid (blocktype a) im_small)
        (np_array_int16 (map snd (PALETTES (blocktype a)))) = Inr pv"
    and w: "size_w pv = size_w im_small * 8" and h: "size_h pv = size_h im_small * 8"
    and c: "\<forall>row < size_h im_small. \<forall>col < size_w im_small. \<forall>dy < 8. \<forall>dx < 8.
          px pv (col * 8 + dx, row * 8 + dy)
            = palette_rgb8 (blocktype a) ! matched_index (blocktype a) (px im_small (col, row))"
    by blast
  have q: "quantize (np_array im_small) (size_h im_small) (size_w im_small)
            (np_array_int16 (map snd (PALETTES (blocktype a))))
          = Inr (index_grid (blocktype a) im_small)"
    by (rule quantize_main)
  from main_under_limit [OF assms(1,2), of codec wd] r
  have m: "main L codec a im wd =
      (case codec path of
         None \<Rightarrow> (Inl (ValueError UnknownExtension),
           make_mcfunction (spec_commands a (size_h im_small) (size_w im_small)
             (map fst (PALETTES (blocktype a))) (index_grid (blocktype a) im_small)) (out a) wd)
       | Some enc \<Rightarrow> (Inr (),
           (make_mcfunction (spec_commands a (size_h im_small) (size_w im_small)
              (map fst (PALETTES (blocktype a))) (index_grid (blocktype a) im_small)) (out a) wd)
           \<lparr>files := (files (make_mcfunction (spec_commands a (size_h im_small)
                (size_w im_small) (map fst (PALETTES (blocktype a)))
                (index_grid (blocktype a) im_small)) (out a) wd))(path \<mapsto> Bitmap (enc pv)),
             stdout := stdout (make_mcfunction (spec_commands a (size_h im_small)
                (size_w im_small) (map fst (PALETTES (blocktype a)))
                (index_grid (blocktype a) im_small)) (out a) wd)
                @ [''Saved preview: '' @ path] @ usage_lines\<rparr>))"
    using assms(3,4) by auto
  have f: "(case codec path of
          None \<Rightarrow> fst (main L codec a im wd) = Inl (ValueError UnknownExtension)
            \<and> (path \<noteq> out a \<longrightarrow> files (snd (main L codec a im wd)) path = files wd path)
        | Some enc \<Rightarrow> fst (main L codec a im wd) = Inr ()
            \<and> files (snd (main L codec a im wd)) path = Some (Bitmap (enc pv)))"
    unfolding m by (simp add: files_make_mcfunction split: option.splits)
  have e: "rgb_ints (palette_rgb8 (blocktype a) ! matched_index (blocktype a) rgb)
      = snd (PALETTES (blocktype a) ! matched_index (blocktype a) rgb)" for rgb
  proof -
    have i: "matched_index (blocktype a) rgb < 16"
      using nearest_color_matched [of rgb "blocktype a"] by simp
    then have "rgb_ints (palette_rgb8 (blocktype a) ! matched_index (blocktype a) rgb)
      = map rgb_ints (palette_rgb8 (blocktype a)) ! matched_index (blocktype a) rgb"
      by (simp add: length_palette_rgb8)
    also have "\<dots> = snd (PALETTES (blocktype a) ! matched_index (blocktype a) rgb)"
      unfolding rgb_ints_palette using i by (simp add: length_PALETTES)
    finally show ?thesis .
  qed
  have cells: "\<forall>row < size_h im_small. \<forall>col < size_w im_small.
          nearest_color (px im_small (col, row)) (np_array_int16 (map snd (PALETTES (blocktype a))))
            = Inr (matched_index (blocktype a) (px im_small (col, row)))
          \<and> (\<forall>dy < 8. \<forall>dx < 8.
                rgb_ints (px pv (col * 8 + dx, row * 8 + dy))
                  = snd (PALETTES (blocktype a) ! matched_index (blocktype a) (px im_small (col, row))))"
    using c by (simp add: nearest_color_matched e)
  from q r w h cells f show ?thesis by blast
qed

theorem preview_upscaled_witness:
  "normalize keep_pixels (example_args\<lparr>max_commands := 2\<rparr>) example_image
     = Inr \<lparr>size_w = 2, size_h = 1, px = keep_pixels example_image (2, 1)\<rparr>
   \<and> preview (example_args\<lparr>max_commands := 2\<rparr>) = Some ''preview.png''
   \<and> (\<exists>pv. files (snd (main keep_pixels png_only (example_args\<lparr>max_commands := 2\<rparr>)
                 example_image empty_world)) ''preview.png'' = Some (Bitmap pv)
          \<and> size_w pv = 16 \<and> size_h pv = 8
          \<and> rgb_ints (px pv (15, 7))
               = snd (CONCRETE_PALETTE ! matched_index Concrete (20, 21, 25)))"
proof -
  have p: "preview (example_args\<lparr>max_commands := 2\<rparr>) = Some ''preview.png''"
    by (simp add: example_args_def)
  have l: "int (size_w \<lparr>size_w = 2, size_h = 1, px = keep_pixels example_image (2, 1)\<rparr>
      * size_h \<lparr>size_w = 2, size_h = 1, px = keep_pixels example_image (2, 1)\<rparr>)
      \<le> max_commands (example_args\<lparr>max_commands := 2\<rparr>)"
    by simp
  have ne: "''preview.png'' \<noteq> []" by simp
  have k: "png_only ''preview.png'' = Some (\<lambda>im. im)" by (simp add: png_only_def)
  from preview_upscaled [OF example_normalize [of 2] l p ne, of png_only empty_world]
  obtain pv where
    f: "files (snd (main keep_pixels png_only (example_args\<lparr>max_commands := 2\<rparr>)
                 example_image empty_world)) ''preview.png'' = Some (Bitmap pv)"
    and w: "size_w pv = 2 * 8" and h: "size_h pv = 1 * 8"
    and c: "\<forall>row < 1. \<forall>col < 2. \<forall>dy < 8. \<forall>dx < 8.
      rgb_ints (px pv (col * 8 + dx, row * 8 + dy))
        = snd (PALETTES (blocktype (example_args\<lparr>max_commands := 2\<rparr>))
            ! matched_index (blocktype (example_args\<lparr>max_commands := 2\<rparr>))
                (px \<lparr>size_w = 2, size_h = 1, px = keep_pixels example_image (2, 1)\<rparr> (col, row)))"
    unfolding k by (auto simp del: split_paired_All)
  have "rgb_ints (px pv (1 * 8 + 7, 0 * 8 + 7))
        = snd (PALETTES (blocktype (example_args\<lparr>max_commands := 2\<rparr>))
            ! matched_index (blocktype (example_args\<lparr>max_commands := 2\<rparr>))
                (px \<lparr>size_w = 2, size_h = 1, px = keep_pixels example_image (2, 1)\<rparr> (1, 0)))"
    by (rule c [rule_format]) simp_all
  then have "rgb_ints (px pv (15, 7)) = snd (CONCRETE_PALETTE ! matched_index Concrete (20, 21, 25))"
    by (simp add: example_args_def keep_pixels_def example_image_def)
  with f w h p example_normalize [of 2] show ?thesis by simp
qed

end
